theory Spec2Isabelle
  imports Main "HOL-Library.Word"
begin

unbundle bit_operations_syntax

section \<open>Library functions the ledger calls\<close>

subsection \<open>CryptoJS.SHA256 (FIPS 180-4), rendered as lowercase hexadecimal\<close>

text \<open>
  \<^verbatim>\<open>CryptoJS.SHA256(s).toString()\<close> hashes the UTF-8 bytes of \<open>s\<close> and prints the
  digest as 64 lowercase hexadecimal characters. A \<open>string\<close> here is that byte sequence.
  The 32-bit words of the algorithm are integers kept below \<open>2 ^ 32\<close>: every sum is
  cut back with \<open>take_bit 32\<close>, that is, taken modulo \<open>2 ^ 32\<close>.
\<close>

definition w32 :: "int \<Rightarrow> int" where
  "w32 x = take_bit 32 x"

definition rotr :: "nat \<Rightarrow> int \<Rightarrow> int" where
  "rotr n x = drop_bit n x OR push_bit (32 - n) (take_bit n x)"

definition Ch :: "int \<Rightarrow> int \<Rightarrow> int \<Rightarrow> int" where
  "Ch x y z = (x AND y) XOR ((x XOR 4294967295) AND z)"

definition Maj :: "int \<Rightarrow> int \<Rightarrow> int \<Rightarrow> int" where
  "Maj x y z = (x AND y) XOR (x AND z) XOR (y AND z)"

definition Sigma0 :: "int \<Rightarrow> int" where
  "Sigma0 x = rotr 2 x XOR rotr 13 x XOR rotr 22 x"

definition Sigma1 :: "int \<Rightarrow> int" where
  "Sigma1 x = rotr 6 x XOR rotr 11 x XOR rotr 25 x"

definition sigma0 :: "int \<Rightarrow> int" where
  "sigma0 x = rotr 7 x XOR rotr 18 x XOR drop_bit 3 x"

definition sigma1 :: "int \<Rightarrow> int" where
  "sigma1 x = rotr 17 x XOR rotr 19 x XOR drop_bit 10 x"

text \<open>The round constants and the initial hash value of FIPS 180-4, written in decimal.\<close>

definition K256 :: "int list" where
  "K256 =
    [1116352408, 1899447441, 3049323471, 3921009573, 961987163, 1508970993, 2453635748, 2870763221,
     3624381080, 310598401, 607225278, 1426881987, 1925078388, 2162078206, 2614888103, 3248222580,
     3835390401, 4022224774, 264347078, 604807628, 770255983, 1249150122, 1555081692, 1996064986,
     2554220882, 2821834349, 2952996808, 3210313671, 3336571891, 3584528711, 113926993, 338241895,
     666307205, 773529912, 1294757372, 1396182291, 1695183700, 1986661051, 2177026350, 2456956037,
     2730485921, 2820302411, 3259730800, 3345764771, 3516065817, 3600352804, 4094571909, 275423344,
     430227734, 506948616, 659060556, 883997877, 958139571, 1322822218, 1537002063, 1747873779,
     1955562222, 2024104815, 2227730452, 2361852424, 2428436474, 2756734187, 3204031479, 3329325298]"

type_synonym sha_state = "int \<times> int \<times> int \<times> int \<times> int \<times> int \<times> int \<times> int"

definition H256 :: sha_state where
  "H256 = (1779033703, 3144134277, 1013904242, 2773480762,
           1359893119, 2600822924, 528734635, 1541459225)"

definition be64 :: "int \<Rightarrow> int list" where
  "be64 n = map (\<lambda>i. take_bit 8 (drop_bit (8 * i) n)) [7, 6, 5, 4, 3, 2, 1, 0]"

definition pad :: "int list \<Rightarrow> int list" where
  "pad bs = bs @ [128] @ replicate (nat ((119 - int (length bs) mod 64) mod 64)) 0
              @ be64 (8 * int (length bs))"

fun blocks :: "nat \<Rightarrow> int list \<Rightarrow> int list list" where
  "blocks 0 bs = []"
| "blocks (Suc n) bs = take 64 bs # blocks n (drop 64 bs)"

fun words :: "int list \<Rightarrow> int list" where
  "words (a # b # c # d # r) = (((a * 256 + b) * 256 + c) * 256 + d) # words r"
| "words _ = []"

text \<open>The message schedule is grown at the front: \<open>ws ! 0\<close> is the newest word.\<close>

fun extendW :: "nat \<Rightarrow> int list \<Rightarrow> int list" where
  "extendW 0 ws = ws"
| "extendW (Suc n) ws =
     extendW n (w32 (sigma1 (ws ! 1) + ws ! 6 + sigma0 (ws ! 14) + ws ! 15) # ws)"

definition schedule :: "int list \<Rightarrow> int list" where
  "schedule blk = rev (extendW 48 (rev (words blk)))"

definition round_step :: "sha_state \<Rightarrow> int \<times> int \<Rightarrow> sha_state" where
  "round_step s kw =
     (case s of (a, b, c, d, e, f, g, h) \<Rightarrow> case kw of (k, w) \<Rightarrow>
       (let t1 = h + Sigma1 e + Ch e f g + k + w;
            t2 = Sigma0 a + Maj a b c
        in (w32 (t1 + t2), a, b, c, w32 (d + t1), e, f, g)))"

definition add_state :: "sha_state \<Rightarrow> sha_state \<Rightarrow> sha_state" where
  "add_state s t =
     (case s of (a, b, c, d, e, f, g, h) \<Rightarrow> case t of (a', b', c', d', e', f', g', h') \<Rightarrow>
       (w32 (a + a'), w32 (b + b'), w32 (c + c'), w32 (d + d'),
        w32 (e + e'), w32 (f + f'), w32 (g + g'), w32 (h + h')))"

definition compress :: "sha_state \<Rightarrow> int list \<Rightarrow> sha_state" where
  "compress s blk = add_state s (foldl round_step s (zip K256 (schedule blk)))"

definition hexdigit :: "int \<Rightarrow> char" where
  "hexdigit n = ''0123456789abcdef'' ! nat n"

definition hex32 :: "int \<Rightarrow> string" where
  "hex32 w = map (\<lambda>i. hexdigit (take_bit 4 (drop_bit (4 * i) w))) [7, 6, 5, 4, 3, 2, 1, 0]"

definition sha256_bytes :: "int list \<Rightarrow> string" where
  "sha256_bytes bs =
     (let p = pad bs in
      case foldl compress H256 (blocks (length p div 64) p) of (a, b, c, d, e, f, g, h) \<Rightarrow>
        concat (map hex32 [a, b, c, d, e, f, g, h]))"

definition SHA256 :: "string \<Rightarrow> string" where
  "SHA256 s = sha256_bytes (map of_char s)"

subsection \<open>Numbers as strings, JSON.stringify\<close>

text \<open>
  The numbers of a block (\<open>index\<close>, \<open>timestamp\<close>, \<open>nonce\<close>) are integral JavaScript
  numbers; \<open>number + string\<close> prints them in decimal, with a minus sign when negative.
  They are modelled as \<open>int\<close> (exact below \<open>2 ^ 53\<close>, where the source's doubles are).
\<close>

definition digit_char :: "int \<Rightarrow> char" where
  "digit_char n = ''0123456789'' ! nat n"

function dec :: "int \<Rightarrow> string" where
  "dec n = (if n < 10 then [digit_char n] else dec (n div 10) @ [digit_char (n mod 10)])"
  by pat_completeness auto
termination
  by (relation "measure nat") auto

declare dec.simps [simp del]

definition show_int :: "int \<Rightarrow> string" where
  "show_int n = (if n < 0 then CHR ''-'' # dec (- n) else dec n)"

text \<open>
  A payload is \<open>any\<close> in the source. The values that survive the document store are
  JSON values; \<open>JObj\<close> keeps the members in insertion order, as \<open>JSON.stringify\<close> prints
  them.
\<close>

datatype json =
    JNull
  | JBool bool
  | JNum int
  | JStr string
  | JArr "json list"
  | JObj "(string \<times> json) list"

definition quote_char :: "char \<Rightarrow> string" where
  "quote_char c =
     (if c = CHR 0x22 then [CHR 0x5C, CHR 0x22]
      else if c = CHR 0x5C then [CHR 0x5C, CHR 0x5C]
      else if c = CHR 0x08 then [CHR 0x5C, CHR ''b'']
      else if c = CHR 0x0C then [CHR 0x5C, CHR ''f'']
      else if c = CHR 0x0A then [CHR 0x5C, CHR ''n'']
      else if c = CHR 0x0D then [CHR 0x5C, CHR ''r'']
      else if c = CHR 0x09 then [CHR 0x5C, CHR ''t'']
      else if (of_char c :: int) < 32
        then [CHR 0x5C, CHR ''u'', CHR ''0'', CHR ''0'',
              hexdigit (of_char c div 16), hexdigit (of_char c mod 16)]
      else [c])"

definition quote :: "string \<Rightarrow> string" where
  "quote s = CHR 0x22 # concat (map quote_char s) @ [CHR 0x22]"

fun join_comma :: "string list \<Rightarrow> string" where
  "join_comma [] = []"
| "join_comma [s] = s"
| "join_comma (s # t # r) = s @ CHR '','' # join_comma (t # r)"

fun stringify :: "json \<Rightarrow> string"
  and stringify_elems :: "json list \<Rightarrow> string list"
  and stringify_members :: "(string \<times> json) list \<Rightarrow> string list" where
  "stringify JNull = ''null''"
| "stringify (JBool b) = (if b then ''true'' else ''false'')"
| "stringify (JNum n) = show_int n"
| "stringify (JStr s) = quote s"
| "stringify (JArr xs) = CHR ''['' # join_comma (stringify_elems xs) @ '']''"
| "stringify (JObj kvs) = CHR ''{'' # join_comma (stringify_members kvs) @ ''}''"
| "stringify_elems [] = []"
| "stringify_elems (x # xs) = stringify x # stringify_elems xs"
| "stringify_members [] = []"
| "stringify_members ((k, v) # kvs) = (quote k @ CHR '':'' # stringify v) # stringify_members kvs"

text \<open>Member access \<open>data.key\<close>; \<open>None\<close> is JavaScript's \<open>undefined\<close>.\<close>

fun member :: "json \<Rightarrow> string \<Rightarrow> json option" where
  "member (JObj kvs) k = map_of kvs k"
| "member _ k = None"

section \<open>The ledger (utils/blockchain.ts)\<close>

record block =
  index :: int
  timestamp :: int
  data :: json
  previousHash :: string
  hash :: string
  nonce :: int

record blockchain =
  chain :: "block list"
  difficulty :: nat

text \<open>
  \<open>ENV.blockchain\<close>: the configured difficulty, a whole number that is not negative (2 unless
  the environment sets another), and the genesis message.
\<close>

record env_blockchain =
  env_difficulty :: nat
  genesisMessage :: string

definition hash_input :: "block \<Rightarrow> string" where
  "hash_input b =
     show_int (index b) @ previousHash b @ show_int (timestamp b)
       @ stringify (data b) @ show_int (nonce b)"

definition calculateHash :: "block \<Rightarrow> string" where
  "calculateHash b = SHA256 (hash_input b)"

text \<open>
  \<open>mineBlock\<close> loops while the first \<open>difficulty\<close> characters of the block's hash differ
  from \<open>difficulty\<close> zeros. The loop has no bound; \<open>None\<close> is a search that never ends.
\<close>

definition target :: "nat \<Rightarrow> string" where
  "target d = replicate d CHR ''0''"

partial_function (option) mineBlock :: "blockchain \<Rightarrow> block \<Rightarrow> block option" where
  "mineBlock bc b =
     (if take (difficulty bc) (hash b) \<noteq> target (difficulty bc)
      then mineBlock bc
             (b\<lparr>nonce := nonce b + 1,
                hash := calculateHash (b\<lparr>nonce := nonce b + 1\<rparr>)\<rparr>)
      else Some b)"

definition genesis_candidate :: "env_blockchain \<Rightarrow> int \<Rightarrow> block" where
  "genesis_candidate env now =
     \<lparr>index = 0, timestamp = now, data = JObj [(''message'', JStr (genesisMessage env))],
      previousHash = ''0'', hash = '''', nonce = 0\<rparr>"

definition createGenesisBlock :: "env_blockchain \<Rightarrow> int \<Rightarrow> blockchain \<Rightarrow> blockchain option" where
  "createGenesisBlock env now bc =
     (case mineBlock bc (genesis_candidate env now) of
        None \<Rightarrow> None
      | Some g \<Rightarrow> Some (bc\<lparr>chain := chain bc @ [g]\<rparr>))"

text \<open>The constructor: an empty chain, the configured difficulty, then the genesis block.\<close>

definition new_Blockchain :: "env_blockchain \<Rightarrow> int \<Rightarrow> blockchain option" where
  "new_Blockchain env now =
     (let bc = \<lparr>chain = [], difficulty = env_difficulty env\<rparr>
      in if length (chain bc) = 0 then createGenesisBlock env now bc else Some bc)"

text \<open>\<open>this.chain[this.chain.length - 1]\<close> is \<open>undefined\<close> on an empty chain.\<close>

definition getLatestBlock :: "blockchain \<Rightarrow> block option" where
  "getLatestBlock bc = (if chain bc = [] then None else Some (chain bc ! (length (chain bc) - 1)))"

function isChainValid_loop :: "block list \<Rightarrow> nat \<Rightarrow> bool" where
  "isChainValid_loop c i =
     (if i < length c then
        (let currentBlock = c ! i; previousBlock = c ! (i - 1) in
         if hash currentBlock \<noteq> calculateHash currentBlock then False
         else if previousHash currentBlock \<noteq> hash previousBlock then False
         else isChainValid_loop c (i + 1))
      else True)"
  by pat_completeness auto
termination
  by (relation "measure (\<lambda>(c, i). length c - i)") auto

declare isChainValid_loop.simps [simp del]

definition isChainValid :: "blockchain \<Rightarrow> bool" where
  "isChainValid bc = isChainValid_loop (chain bc) 1"

subsection \<open>The document store\<close>

text \<open>
  The collection \<open>blockchain\<close> holds one document per block, under the key
  \<open>block.index.toString()\<close>: writing a block replaces the document of that index or adds
  one. \<open>getDocs\<close> with \<open>orderBy("index")\<close> returns the documents in ascending index order.
  Whether a call to the store succeeds is decided outside the program; each operation
  takes that outcome as an argument.
\<close>

type_synonym store = "block list"

definition setDoc_block :: "block \<Rightarrow> store \<Rightarrow> store" where
  "setDoc_block b st =
     (if index b \<in> index ` set st
      then map (\<lambda>d. if index d = index b then b else d) st
      else st @ [b])"

definition getDocs_ordered :: "store \<Rightarrow> block list" where
  "getDocs_ordered st = sort_key index st"

text \<open>\<open>saveBlockToFirebase\<close> catches a failed write and only logs it.\<close>

definition saveBlockToFirebase :: "bool \<Rightarrow> block \<Rightarrow> store \<Rightarrow> store" where
  "saveBlockToFirebase wr b st = (if wr then setDoc_block b st else st)"

datatype js_error = TypeError | FirestoreError | Error string

definition addBlock ::
  "int \<Rightarrow> bool \<Rightarrow> json \<Rightarrow> blockchain \<Rightarrow> store
     \<Rightarrow> (js_error + block \<times> blockchain \<times> store) option" where
  "addBlock now wr d bc st =
     (case getLatestBlock bc of
        None \<Rightarrow> Some (Inl TypeError)
      | Some previousBlock \<Rightarrow>
          (case mineBlock bc
                  \<lparr>index = index previousBlock + 1, timestamp = now, data = d,
                   previousHash = hash previousBlock, hash = '''', nonce = 0\<rparr> of
             None \<Rightarrow> None
           | Some newBlock \<Rightarrow>
               Some (Inr (newBlock, bc\<lparr>chain := chain bc @ [newBlock]\<rparr>,
                          saveBlockToFirebase wr newBlock st))))"

text \<open>
  \<open>loadFromFirebase\<close>: on a successful read the chain is replaced by the stored blocks,
  and a genesis block is mined when there are none; on a failed read the \<open>catch\<close> branch
  empties the chain and mines a genesis block.
\<close>

definition loadFromFirebase ::
  "env_blockchain \<Rightarrow> int \<Rightarrow> bool \<Rightarrow> store \<Rightarrow> blockchain \<Rightarrow> blockchain option" where
  "loadFromFirebase env now rd st bc =
     (if rd then
        (let bc' = bc\<lparr>chain := getDocs_ordered st\<rparr>
         in if length (chain bc') = 0 then createGenesisBlock env now bc' else Some bc')
      else createGenesisBlock env now (bc\<lparr>chain := []\<rparr>))"

subsection \<open>Recording and verifying votes\<close>

definition createVoteHash :: "int \<Rightarrow> string \<Rightarrow> int \<Rightarrow> string \<Rightarrow> string" where
  "createVoteHash now electionId cid voterId =
     SHA256 (electionId @ ''|'' @ show_int cid @ ''|'' @ voterId @ ''|'' @ show_int now)"

text \<open>
  What one call observes from outside: the clock at each \<open>new Date().getTime()\<close> (in the
  constructor's genesis block, in the genesis block of the reload, in \<open>createVoteHash\<close>,
  in the payload, in the new block) and the outcome of the read and of the write.
\<close>

record io =
  t_ctor :: int
  t_load :: int
  t_vote :: int
  t_data :: int
  t_block :: int
  read_ok :: bool
  write_ok :: bool

record vote_result =
  success :: bool
  transactionHash :: "string option"
  error :: "js_error option"

definition voteData :: "io \<Rightarrow> string \<Rightarrow> int \<Rightarrow> string \<Rightarrow> json" where
  "voteData w electionId cid voterId =
     JObj [(''type'', JStr ''VOTE''),
           (''electionId'', JStr electionId),
           (''candidateId'', JNum cid),
           (''voterIdHash'', JStr (SHA256 voterId)),
           (''voteHash'', JStr (createVoteHash (t_vote w) electionId cid voterId)),
           (''timestamp'', JNum (t_data w))]"

definition recordVoteOnBlockchain ::
  "env_blockchain \<Rightarrow> io \<Rightarrow> string \<Rightarrow> int \<Rightarrow> string \<Rightarrow> store
     \<Rightarrow> (vote_result \<times> store) option" where
  "recordVoteOnBlockchain env w electionId cid voterId st =
     (case new_Blockchain env (t_ctor w) of
        None \<Rightarrow> None
      | Some bc0 \<Rightarrow>
          (case loadFromFirebase env (t_load w) (read_ok w) st bc0 of
             None \<Rightarrow> None
           | Some blockchain \<Rightarrow>
               (case addBlock (t_block w) (write_ok w)
                       (voteData w electionId cid voterId) blockchain st of
                  None \<Rightarrow> None
                | Some (Inl e) \<Rightarrow>
                    Some (\<lparr>success = False, transactionHash = None, error = Some e\<rparr>, st)
                | Some (Inr (newBlock, bc', st')) \<Rightarrow>
                    Some (\<lparr>success = True, transactionHash = Some (hash newBlock),
                           error = None\<rparr>, st'))))"

text \<open>
  \<open>verifyBlockchain\<close> and \<open>getElectionVotes\<close> wrap their body in \<open>try\<close>/\<open>catch\<close>, but nothing
  in the body throws: the constructor and \<open>isChainValid\<close> raise nothing and
  \<open>loadFromFirebase\<close> catches the store's errors itself. The \<open>catch\<close> branches
  (\<open>{valid: false, blockCount: 0}\<close>, \<open>[]\<close>) are therefore no branch of the model. \<open>None\<close> is a
  call whose mining never returns.
\<close>

record verify_result =
  valid :: bool
  blockCount :: nat

definition verifyBlockchain :: "env_blockchain \<Rightarrow> io \<Rightarrow> store \<Rightarrow> verify_result option" where
  "verifyBlockchain env w st =
     (case new_Blockchain env (t_ctor w) of
        None \<Rightarrow> None
      | Some bc0 \<Rightarrow>
          (case loadFromFirebase env (t_load w) (read_ok w) st bc0 of
             None \<Rightarrow> None
           | Some blockchain \<Rightarrow>
               Some \<lparr>valid = isChainValid blockchain, blockCount = length (chain blockchain)\<rparr>))"

text \<open>JavaScript truthiness of a payload, for \<open>block.data && ...\<close>.\<close>

fun truthy :: "json \<Rightarrow> bool" where
  "truthy JNull = False"
| "truthy (JBool b) = b"
| "truthy (JNum n) = (n \<noteq> 0)"
| "truthy (JStr s) = (s \<noteq> [])"
| "truthy (JArr xs) = True"
| "truthy (JObj kvs) = True"

definition is_election_vote :: "string \<Rightarrow> block \<Rightarrow> bool" where
  "is_election_vote electionId b =
     (truthy (data b) \<and> member (data b) ''type'' = Some (JStr ''VOTE'')
        \<and> member (data b) ''electionId'' = Some (JStr electionId))"

record vote_view =
  blockIndex :: int
  blockHash :: string
  candidateId :: "json option"
  vote_timestamp :: "json option"
  voteHash :: "json option"

definition electionVotes :: "string \<Rightarrow> block list \<Rightarrow> vote_view list" where
  "electionVotes electionId c =
     map (\<lambda>b. \<lparr>blockIndex = index b, blockHash = hash b,
                candidateId = member (data b) ''candidateId'',
                vote_timestamp = member (data b) ''timestamp'',
                voteHash = member (data b) ''voteHash''\<rparr>)
         (filter (is_election_vote electionId) c)"

definition getElectionVotes ::
  "env_blockchain \<Rightarrow> io \<Rightarrow> string \<Rightarrow> store \<Rightarrow> vote_view list option" where
  "getElectionVotes env w electionId st =
     (case new_Blockchain env (t_ctor w) of
        None \<Rightarrow> None
      | Some bc0 \<Rightarrow>
          (case loadFromFirebase env (t_load w) (read_ok w) st bc0 of
             None \<Rightarrow> None
           | Some blockchain \<Rightarrow> Some (electionVotes electionId (chain blockchain))))"

text \<open>The ledger's count of votes for one candidate of one election.\<close>

definition ledger_tally :: "string \<Rightarrow> int \<Rightarrow> block list \<Rightarrow> nat" where
  "ledger_tally electionId c bs =
     length (filter (\<lambda>v. candidateId v = Some (JNum c)) (electionVotes electionId bs))"

section \<open>The election documents and the voting screen (utils/firebase.ts, app/election)\<close>

record candidate =
  cand_id :: int
  voteCount :: int

record election =
  candidates :: "candidate list"
  voters :: "string list"

record vote_tx =
  tx_election :: string
  tx_candidate :: int
  tx_voter :: string
  tx_voteHash :: string

record db =
  elections :: "string \<Rightarrow> election option"
  transactions :: "vote_tx list"

text \<open>The outcome of \<open>getDoc\<close>, of \<open>setDoc\<close> and of \<open>updateDoc\<close> inside \<open>castVote\<close>.\<close>

record firestore_io =
  getDoc_ok :: bool
  setDoc_ok :: bool
  updateDoc_ok :: bool

datatype cast_result = CastSuccess | CastError js_error

definition castVote ::
  "firestore_io \<Rightarrow> string \<Rightarrow> int \<Rightarrow> string \<Rightarrow> string \<Rightarrow> db \<Rightarrow> cast_result \<times> db" where
  "castVote f electionId cid voterId vh d =
     (if \<not> getDoc_ok f then (CastError FirestoreError, d)
      else case elections d electionId of
        None \<Rightarrow> (CastError (Error ''Election not found''), d)
      | Some electionData \<Rightarrow>
          if voterId \<in> set (voters electionData)
          then (CastError (Error ''You have already voted in this election''), d)
          else if \<not> setDoc_ok f then (CastError FirestoreError, d)
          else
            (let d1 = d\<lparr>transactions := transactions d @
                         [\<lparr>tx_election = electionId, tx_candidate = cid, tx_voter = voterId,
                           tx_voteHash = vh\<rparr>]\<rparr>
             in if cid - 1 < 0 \<or> int (length (candidates electionData)) \<le> cid - 1
                then (CastError TypeError, d1)
                else if \<not> updateDoc_ok f then (CastError FirestoreError, d1)
                else
                  (let k = nat (cid - 1);
                       c = candidates electionData ! k;
                       e' = electionData
                              \<lparr>candidates := (candidates electionData)
                                               [k := c\<lparr>voteCount := voteCount c + 1\<rparr>],
                               voters := voters electionData @ [voterId]\<rparr>
                   in (CastSuccess, d1\<lparr>elections := (elections d1)(electionId \<mapsto> e')\<rparr>))))"

datatype alert = VoteCastSuccessfully | AlertError js_error

text \<open>
  \<open>handleCastVote\<close> of the voting screen: the ledger is written first, \<open>castVote\<close> (with
  the only check of the voter list) runs after the ledger reported success.
\<close>

definition handleCastVote ::
  "env_blockchain \<Rightarrow> io \<Rightarrow> firestore_io \<Rightarrow> int \<Rightarrow> int option \<Rightarrow> bool \<Rightarrow> string option
     \<Rightarrow> string \<Rightarrow> store \<times> db \<Rightarrow> (alert \<times> store \<times> db) option" where
  "handleCastVote env w f t_screen selectedCandidate election_loaded user electionId s =
     (case s of (st, d) \<Rightarrow>
      (case (selectedCandidate, user) of
         (Some c, Some uid) \<Rightarrow>
           if c = 0 \<or> \<not> election_loaded
           then Some (AlertError (Error ''Please select a candidate before voting''), st, d)
           else
             (let vh = createVoteHash t_screen electionId c uid in
              case recordVoteOnBlockchain env w electionId c uid st of
                None \<Rightarrow> None
              | Some (blockchainResult, st') \<Rightarrow>
                  if \<not> success blockchainResult
                  then Some (AlertError
                               (case error blockchainResult of
                                  Some e \<Rightarrow> e
                                | None \<Rightarrow> Error ''Failed to record vote on blockchain''),
                             st', d)
                  else
                    (case castVote f electionId c uid vh d of
                       (CastError e, d') \<Rightarrow> Some (AlertError e, st', d')
                     | (CastSuccess, d') \<Rightarrow> Some (VoteCastSuccessfully, st', d')))
       | _ \<Rightarrow> Some (AlertError (Error ''Please select a candidate before voting''), st, d)))"

section \<open>Vocabulary of the statements\<close>

text \<open>
  A hash \<open>meets\<close> difficulty \<open>d\<close> when its first \<open>d\<close> characters are zeros (the loop
  condition of \<open>mineBlock\<close>, negated). \<open>digest_at b k\<close> is the digest \<open>calculateHash\<close>
  computes for \<open>b\<close> once its nonce is \<open>k\<close>, and \<open>sealed b k\<close> is \<open>b\<close> with that nonce and that
  digest stored: the state of the block after the loop body ran with nonce \<open>k\<close>.
\<close>

definition meets :: "nat \<Rightarrow> string \<Rightarrow> bool" where
  "meets d h = (take d h = target d)"

definition digest_at :: "block \<Rightarrow> int \<Rightarrow> string" where
  "digest_at b k = calculateHash (b\<lparr>nonce := k\<rparr>)"

definition sealed :: "block \<Rightarrow> int \<Rightarrow> block" where
  "sealed b k = b\<lparr>nonce := k, hash := digest_at b k\<rparr>"

text \<open>
  One hashed field of a block changed (index, timestamp, payload, previous hash or nonce),
  the stored hash kept.
\<close>

definition field_mutation :: "block \<Rightarrow> block \<Rightarrow> bool" where
  "field_mutation b b' =
     (hash b' = hash b \<and>
      ((index b' \<noteq> index b \<and> b' = b\<lparr>index := index b'\<rparr>) \<or>
       (timestamp b' \<noteq> timestamp b \<and> b' = b\<lparr>timestamp := timestamp b'\<rparr>) \<or>
       (data b' \<noteq> data b \<and> b' = b\<lparr>data := data b'\<rparr>) \<or>
       (previousHash b' \<noteq> previousHash b \<and> b' = b\<lparr>previousHash := previousHash b'\<rparr>) \<or>
       (nonce b' \<noteq> nonce b \<and> b' = b\<lparr>nonce := nonce b'\<rparr>)))"

text \<open>
  The two strings do not collide under SHA-256.
\<close>

definition collision_free :: "string \<Rightarrow> string \<Rightarrow> bool" where
  "collision_free s t = (s \<noteq> t \<longrightarrow> SHA256 s \<noteq> SHA256 t)"

text \<open>
  Reading a decimal string back, to show that printing a number loses nothing.
\<close>

definition digit_val :: "char \<Rightarrow> int" where
  "digit_val c = of_char c - 48"

definition undec :: "string \<Rightarrow> int" where
  "undec s = foldl (\<lambda>a c. 10 * a + digit_val c) 0 s"

definition read_int :: "string \<Rightarrow> int" where
  "read_int s = (if hd s = CHR ''-'' then - undec (tl s) else undec s)"

text \<open>
  For the proof that the serialisation of a payload determines the payload: the characters
  that can follow a value inside an array or an object, the first character of each kind of
  value, and the reading back of one quoted character.
\<close>

definition delim :: "char \<Rightarrow> bool" where
  "delim c = (c = CHR '','' \<or> c = CHR '']'' \<or> c = CHR ''}'')"

definition delimited :: "string \<Rightarrow> bool" where
  "delimited r = (r = [] \<or> delim (hd r))"

fun kind :: "json \<Rightarrow> nat" where
  "kind JNull = 0"
| "kind (JBool b) = 1"
| "kind (JNum n) = 2"
| "kind (JStr s) = 3"
| "kind (JArr xs) = 4"
| "kind (JObj kvs) = 5"

definition char_kind :: "char \<Rightarrow> nat" where
  "char_kind c =
     (if c = CHR ''n'' then 0 else if c = CHR ''t'' \<or> c = CHR ''f'' then 1
      else if c = CHR 0x22 then 3 else if c = CHR ''['' then 4 else if c = CHR ''{'' then 5
      else 2)"

definition hexval :: "char \<Rightarrow> int" where
  "hexval c = (if (of_char c :: int) < 58 then of_char c - 48 else of_char c - 87)"

definition unescape :: "char \<Rightarrow> char" where
  "unescape e =
     (if e = CHR ''b'' then CHR 0x08 else if e = CHR ''f'' then CHR 0x0C
      else if e = CHR ''n'' then CHR 0x0A else if e = CHR ''r'' then CHR 0x0D
      else if e = CHR ''t'' then CHR 0x09 else e)"

fun unquote_char :: "string \<Rightarrow> char \<times> string" where
  "unquote_char [] = (CHR 0x00, [])"
| "unquote_char (x # rest) =
     (if x \<noteq> CHR 0x5C then (x, rest)
      else case rest of
        [] \<Rightarrow> (x, [])
      | e # rest' \<Rightarrow>
          if e = CHR ''u'' then
            (case rest' of
               a # b # h1 # h2 # rest'' \<Rightarrow> (char_of (16 * hexval h1 + hexval h2), rest'')
             | _ \<Rightarrow> (x, rest))
          else (unescape e, rest'))"

text \<open>
  A caller that appends payloads one after the other; each entry carries the clock reading
  of \<open>addBlock\<close>, the outcome of its write and the payload.
\<close>

fun addBlocks ::
  "(int \<times> bool \<times> json) list \<Rightarrow> blockchain \<times> store \<Rightarrow> (js_error + blockchain \<times> store) option" where
  "addBlocks [] s = Some (Inr s)"
| "addBlocks ((now, wr, d) # ps) (bc, st) =
     (case addBlock now wr d bc st of
        None \<Rightarrow> None
      | Some (Inl e) \<Rightarrow> Some (Inl e)
      | Some (Inr (b, bc', st')) \<Rightarrow> addBlocks ps (bc', st'))"

text \<open>
  Every block carries its position and its own digest, and every block after the first
  points at the hash of its predecessor.
\<close>

definition sealed_chain :: "block list \<Rightarrow> bool" where
  "sealed_chain c =
     (c \<noteq> [] \<and>
      (\<forall>i<length c. index (c ! i) = int i \<and> hash (c ! i) = calculateHash (c ! i)) \<and>
      (\<forall>i. 0 < i \<and> i < length c \<longrightarrow> previousHash (c ! i) = hash (c ! (i - 1))))"

section \<open>A recorded run\<close>

text \<open>
  The default configuration, and clock readings for which the first nonce tried already
  meets the target, so that each search below ends after one digest.
\<close>

definition env0 :: env_blockchain where
  "env0 = \<lparr>env_difficulty = 2, genesisMessage = ''Blockchain Voting System Genesis Block''\<rparr>"

definition g0 :: block where
  "g0 = \<lparr>index = 0, timestamp = 1700000000142,
         data = JObj [(''message'', JStr ''Blockchain Voting System Genesis Block'')],
         previousHash = ''0'',
         hash = ''0082f8f1d0620a26d424706dee87376ecfbcb84507ef1d576890ee39c2588011'',
         nonce = 1\<rparr>"

definition w1 :: io where
  "w1 = \<lparr>t_ctor = 1700000000142, t_load = 1700000000142, t_vote = 1700000200000, t_data = 1700000200000,
         t_block = 1700000200424, read_ok = True, write_ok = True\<rparr>"

definition w2 :: io where
  "w2 = \<lparr>t_ctor = 1700000000142, t_load = 1700000000142, t_vote = 1700000300000, t_data = 1700000300000,
         t_block = 1700000300363, read_ok = True, write_ok = True\<rparr>"

definition b1 :: block where
  "b1 = \<lparr>index = 1, timestamp = 1700000200424,
         data = JObj [(''type'', JStr ''VOTE''), (''electionId'', JStr ''E1''), (''candidateId'', JNum 1),
           (''voterIdHash'', JStr ''316ca0efda6296d8f2c11d1e20890d220cec4266a0c16fbbef324c004688468a''),
           (''voteHash'', JStr ''faaa130ddf48ab24fd1d3e9877a3657853b9e7b0ff0d4b1e0d8dcfc6f2e99d2d''),
           (''timestamp'', JNum 1700000200000)],
         previousHash = ''0082f8f1d0620a26d424706dee87376ecfbcb84507ef1d576890ee39c2588011'',
         hash = ''00a8611bbe4cfb2075d4266cf4f655d5b358b476b47902d3d57a277ac0e979b3'',
         nonce = 1\<rparr>"

definition b1_tampered :: block where
  "b1_tampered = b1\<lparr>data := JObj [(''type'', JStr ''VOTE''), (''electionId'', JStr ''E1''), (''candidateId'', JNum 2),
           (''voterIdHash'', JStr ''316ca0efda6296d8f2c11d1e20890d220cec4266a0c16fbbef324c004688468a''),
           (''voteHash'', JStr ''faaa130ddf48ab24fd1d3e9877a3657853b9e7b0ff0d4b1e0d8dcfc6f2e99d2d''),
           (''timestamp'', JNum 1700000200000)]\<rparr>"

definition b2 :: block where
  "b2 = \<lparr>index = 2, timestamp = 1700000300363,
         data = JObj [(''type'', JStr ''VOTE''), (''electionId'', JStr ''E1''), (''candidateId'', JNum 1),
           (''voterIdHash'', JStr ''316ca0efda6296d8f2c11d1e20890d220cec4266a0c16fbbef324c004688468a''),
           (''voteHash'', JStr ''d9dfdfc2f97ea27e0e9ca5c76a3ab795bc046bf4c9f7d19c1b4aad9a85673ce3''),
           (''timestamp'', JNum 1700000300000)],
         previousHash = ''00a8611bbe4cfb2075d4266cf4f655d5b358b476b47902d3d57a277ac0e979b3'',
         hash = ''00619185a02d2c2bd5432f0ba4ea2bfab6b8ab57e2cc3cb1b54555cba6efb583'',
         nonce = 1\<rparr>"

definition ledger2 :: blockchain where
  "ledger2 = \<lparr>chain = [g0, b1], difficulty = 2\<rparr>"

text \<open>A clock reading at which the digest for nonce 0 already starts with two zeros.\<close>

definition early_candidate :: block where
  "early_candidate = genesis_candidate env0 1700000121462"

text \<open>Two stored blocks that were never mined.\<close>

definition x0 :: block where
  "x0 = \<lparr>index = 5, timestamp = 1700000000000, data = JNull, previousHash = ''x'',
         hash = ''abc'', nonce = 0\<rparr>"

definition x1 :: block where
  "x1 = \<lparr>index = 9, timestamp = 1700000000000, data = JObj [(''v'', JNum 1)],
         previousHash = ''abc'',
         hash = ''13073e01f076a1e8dcf942b0ce36d500a51b65ddfa6e30330d53b45fa6f42f0f'',
         nonce = 0\<rparr>"

definition election0 :: election where
  "election0 = \<lparr>candidates = [\<lparr>cand_id = 1, voteCount = 0\<rparr>, \<lparr>cand_id = 2, voteCount = 0\<rparr>],
                 voters = []\<rparr>"

definition db0 :: db where
  "db0 = \<lparr>elections = [''E1'' \<mapsto> election0], transactions = []\<rparr>"

definition fs_ok :: firestore_io where
  "fs_ok = \<lparr>getDoc_ok = True, setDoc_ok = True, updateDoc_ok = True\<rparr>"

text \<open>
  The election documents after the first vote of the run was cast.
\<close>

definition db1 :: db where
  "db1 = snd (castVote fs_ok ''E1'' 1 ''U1'' (createVoteHash 1700000200000 ''E1'' 1 ''U1'') db0)"

section \<open>Properties of the library functions\<close>

lemma length_hex32: "length (hex32 w) = 8"
  by (simp add: hex32_def)

lemma length_SHA256: "length (SHA256 s) = 64"
  by (simp add: SHA256_def sha256_bytes_def Let_def length_hex32 split: prod.splits)

lemma digit_range: "0 \<le> n \<Longrightarrow> n < 10 \<Longrightarrow> n \<in> {0, 1, 2, 3, 4, 5, 6, 7, 8, 9 :: int}"
  by simp presburger

lemma digit_val_digit_char: "0 \<le> n \<Longrightarrow> n < 10 \<Longrightarrow> digit_val (digit_char n) = n"
  using digit_range[of n] by (auto simp: digit_val_def digit_char_def)

lemma digit_char_not_minus: "0 \<le> n \<Longrightarrow> n < 10 \<Longrightarrow> digit_char n \<noteq> CHR ''-''"
  using digit_range[of n] by (auto simp: digit_char_def)

lemma undec_snoc: "undec (s @ [c]) = 10 * undec s + digit_val c"
  by (simp add: undec_def)

lemma undec_dec: "0 \<le> n \<Longrightarrow> undec (dec n) = n"
proof (induction n rule: dec.induct)
  case (1 n)
  show ?case
  proof (cases "n < 10")
    case True
    with "1.prems" show ?thesis
      by (subst dec.simps) (simp add: undec_def digit_val_digit_char)
  next
    case False
    then have "undec (dec (n div 10)) = n div 10"
      using "1.IH" "1.prems" by simp
    with False show ?thesis
      by (subst dec.simps) (simp add: undec_snoc digit_val_digit_char)
  qed
qed

lemma dec_nonempty: "dec n \<noteq> []"
  by (subst dec.simps) simp

lemma hd_dec_not_minus: "0 \<le> n \<Longrightarrow> hd (dec n) \<noteq> CHR ''-''"
proof (induction n rule: dec.induct)
  case (1 n)
  show ?case
  proof (cases "n < 10")
    case True
    with "1.prems" show ?thesis
      by (subst dec.simps) (simp add: digit_char_not_minus)
  next
    case False
    then have "hd (dec (n div 10)) \<noteq> CHR ''-''"
      using "1.IH" "1.prems" by simp
    with False show ?thesis
      by (subst dec.simps) (simp add: dec_nonempty)
  qed
qed

lemma read_show_int: "read_int (show_int n) = n"
  by (simp add: read_int_def show_int_def undec_dec hd_dec_not_minus)

lemma show_int_inj: "show_int m = show_int n \<Longrightarrow> m = n"
  by (metis read_show_int)

lemma hex_range:
  "0 \<le> n \<Longrightarrow> n < 16 \<Longrightarrow> n \<in> {0, 1, 2, 3, 4, 5, 6, 7, 8, 9, 10, 11, 12, 13, 14, 15 :: int}"
  by simp presburger

lemma hexval_hexdigit: "0 \<le> n \<Longrightarrow> n < 16 \<Longrightarrow> hexval (hexdigit n) = n"
  using hex_range[of n] by (auto simp: hexval_def hexdigit_def)

lemma of_char_nonneg: "0 \<le> (of_char c :: int)"
  by (metis of_nat_of_char of_nat_0_le_iff)

lemma quote_char_cases:
  obtains (dq) "c = CHR 0x22" | (bs) "c = CHR 0x5C" | (b) "c = CHR 0x08" | (f) "c = CHR 0x0C"
    | (n) "c = CHR 0x0A" | (r) "c = CHR 0x0D" | (t) "c = CHR 0x09"
    | (ctl) "(of_char c :: int) < 32" "quote_char c = [CHR 0x5C, CHR ''u'', CHR ''0'', CHR ''0'',
              hexdigit (of_char c div 16), hexdigit (of_char c mod 16)]"
    | (plain) "c \<noteq> CHR 0x5C" "c \<noteq> CHR 0x22" "quote_char c = [c]"
proof (cases "c = CHR 0x22 \<or> c = CHR 0x5C \<or> c = CHR 0x08 \<or> c = CHR 0x0C \<or> c = CHR 0x0A
    \<or> c = CHR 0x0D \<or> c = CHR 0x09")
  case True
  then show ?thesis using dq bs b f n r t by blast
next
  case False
  show ?thesis
  proof (cases "(of_char c :: int) < 32")
    case True
    with False have "quote_char c = [CHR 0x5C, CHR ''u'', CHR ''0'', CHR ''0'',
              hexdigit (of_char c div 16), hexdigit (of_char c mod 16)]"
      by (simp add: quote_char_def)
    with True show ?thesis by (rule ctl)
  next
    case ge: False
    with False have "quote_char c = [c]" by (simp add: quote_char_def)
    with False show ?thesis using plain by blast
  qed
qed

lemma unquote_quote_char: "unquote_char (quote_char c @ X) = (c, X)"
proof (cases c rule: quote_char_cases)
  case dq then show ?thesis by (simp add: quote_char_def unescape_def)
next
  case bs then show ?thesis by (simp add: quote_char_def unescape_def)
next
  case b then show ?thesis by (simp add: quote_char_def unescape_def)
next
  case f then show ?thesis by (simp add: quote_char_def unescape_def)
next
  case n then show ?thesis by (simp add: quote_char_def unescape_def)
next
  case r then show ?thesis by (simp add: quote_char_def unescape_def)
next
  case t then show ?thesis by (simp add: quote_char_def unescape_def)
next
  case ctl
  let ?n = "of_char c :: int"
  have d: "0 \<le> ?n div 16" "?n div 16 < 16" using ctl(1) of_char_nonneg[of c] by simp_all
  have m: "0 \<le> ?n mod 16" "?n mod 16 < 16" by simp_all
  have "16 * hexval (hexdigit (?n div 16)) + hexval (hexdigit (?n mod 16)) = ?n"
    unfolding hexval_hexdigit[OF d] hexval_hexdigit[OF m] by simp
  then have "char_of (16 * hexval (hexdigit (?n div 16)) + hexval (hexdigit (?n mod 16))) = c"
    by simp
  then show ?thesis unfolding ctl(2) by simp
next
  case plain
  then show ?thesis by simp
qed

lemma quote_char_unique:
  assumes "quote_char c @ X = quote_char c' @ X'"
  shows "c = c' \<and> X = X'"
proof -
  from assms have "unquote_char (quote_char c @ X) = unquote_char (quote_char c' @ X')"
    by simp
  then have "(c, X) = (c', X')" by (simp only: unquote_quote_char)
  then show ?thesis by simp
qed

lemma hd_quote_char: "quote_char c \<noteq> [] \<and> hd (quote_char c) \<noteq> CHR 0x22"
  by (cases c rule: quote_char_cases) (simp_all add: quote_char_def)

lemma quote_mark_first:
  assumes "CHR 0x22 # r = quote_char c @ rest"
  shows False
proof -
  from assms have "hd (CHR 0x22 # r) = hd (quote_char c @ rest)" by simp
  with hd_quote_char[of c] show False by (simp add: hd_append)
qed

lemma quoted_body_unique:
  "concat (map quote_char s) @ CHR 0x22 # r = concat (map quote_char s') @ CHR 0x22 # r'
     \<Longrightarrow> s = s' \<and> r = r'"
proof (induction s arbitrary: s')
  case Nil
  show ?case
  proof (cases s')
    case Nil with Nil.prems show ?thesis by simp
  next
    case (Cons c t)
    with Nil.prems have "CHR 0x22 # r = quote_char c @ (concat (map quote_char t) @ CHR 0x22 # r')"
      by simp
    from quote_mark_first[OF this] show ?thesis ..
  qed
next
  case (Cons c t)
  show ?case
  proof (cases s')
    case Nil
    with Cons.prems have "CHR 0x22 # r' = quote_char c @ (concat (map quote_char t) @ CHR 0x22 # r)"
      by simp
    from quote_mark_first[OF this] show ?thesis ..
  next
    case (Cons c' t')
    with Cons.prems have "quote_char c @ (concat (map quote_char t) @ CHR 0x22 # r)
        = quote_char c' @ (concat (map quote_char t') @ CHR 0x22 # r')" by simp
    from quote_char_unique[OF this] have "c = c'"
      "concat (map quote_char t) @ CHR 0x22 # r = concat (map quote_char t') @ CHR 0x22 # r'"
      by simp_all
    with Cons.IH[of t'] Cons show ?thesis by simp
  qed
qed

lemma quote_unique: "quote s @ r = quote s' @ r' \<Longrightarrow> s = s' \<and> r = r'"
  using quoted_body_unique[of s r s' r'] by (simp add: quote_def)

lemma digit_char_digit: "0 \<le> n \<Longrightarrow> n < 10 \<Longrightarrow> digit_char n \<in> set ''0123456789''"
  using digit_range[of n] by (auto simp: digit_char_def)

lemma dec_digits: "0 \<le> n \<Longrightarrow> c \<in> set (dec n) \<Longrightarrow> c \<in> set ''0123456789''"
proof (induction n rule: dec.induct)
  case (1 n)
  show ?case
  proof (cases "n < 10")
    case True
    with "1.prems" show ?thesis
      by (subst (asm) dec.simps) (simp add: digit_char_digit[simplified])
  next
    case False
    from "1.prems"(2) False have "c \<in> set (dec (n div 10)) \<or> c = digit_char (n mod 10)"
      by (subst (asm) dec.simps) auto
    then show ?thesis
    proof
      assume "c \<in> set (dec (n div 10))"
      with "1.IH"[OF False] "1.prems"(1) show ?thesis by simp
    next
      assume "c = digit_char (n mod 10)"
      with digit_char_digit[of "n mod 10"] show ?thesis by simp
    qed
  qed
qed

lemma show_int_chars: "c \<in> set (show_int n) \<Longrightarrow> c \<in> set ''-0123456789''"
  using dec_digits[of n c] dec_digits[of "- n" c]
  by (auto simp: show_int_def split: if_splits)

lemma show_int_nonempty: "show_int n \<noteq> []"
  by (simp add: show_int_def dec_nonempty)

lemma number_char: "c \<in> set ''-0123456789'' \<Longrightarrow> \<not> delim c \<and> char_kind c = 2"
  by (auto simp: delim_def char_kind_def)

lemma undelimited_split:
  assumes "\<forall>c\<in>set xs. \<not> delim c" and "\<forall>c\<in>set ys. \<not> delim c"
    and "delimited r" and "delimited r'" and "xs @ r = ys @ r'"
  shows "xs = ys \<and> r = r'"
  using assms
proof (induction xs arbitrary: ys)
  case Nil
  show ?case
  proof (cases ys)
    case Nil with Nil.prems show ?thesis by simp
  next
    case (Cons y t)
    with Nil.prems(5) have "r = y # t @ r'" by simp
    with Nil.prems(3) have "delim y" by (simp add: delimited_def)
    with Nil.prems(2) Cons show ?thesis by simp
  qed
next
  case (Cons x t)
  show ?case
  proof (cases ys)
    case Nil
    with Cons.prems(5) have "r' = x # t @ r" by simp
    with Cons.prems(4) have "delim x" by (simp add: delimited_def)
    with Cons.prems(1) show ?thesis by simp
  next
    case (Cons y t')
    with Cons.prems have "x = y" "t @ r = t' @ r'" by simp_all
    moreover have "t = t' \<and> r = r'"
      by (rule Cons.IH) (use Cons.prems Cons \<open>t @ r = t' @ r'\<close> in auto)
    ultimately show ?thesis using Cons by simp
  qed
qed

lemma number_unique:
  assumes "delimited r" and "delimited r'" and "show_int n @ r = show_int m @ r'"
  shows "n = m \<and> r = r'"
proof -
  have "show_int n = show_int m \<and> r = r'"
    by (rule undelimited_split) (use assms show_int_chars number_char in blast)+
  then show ?thesis using show_int_inj by blast
qed

lemma hd_stringify:
  "stringify x \<noteq> [] \<and> char_kind (hd (stringify x)) = kind x \<and> \<not> delim (hd (stringify x))"
proof (cases x)
  case (JNum n)
  have "hd (show_int n) \<in> set (show_int n)" using show_int_nonempty by simp
  from number_char[OF show_int_chars[OF this]] show_int_nonempty JNum show ?thesis by simp
qed (simp_all add: char_kind_def delim_def quote_def)

lemma kind_eq:
  assumes "stringify x @ r = stringify y @ r'"
  shows "kind x = kind y"
proof -
  from assms have "hd (stringify x @ r) = hd (stringify y @ r')" by simp
  then have "hd (stringify x) = hd (stringify y)"
    using hd_stringify[of x] hd_stringify[of y] by (simp add: hd_append)
  then show ?thesis using hd_stringify[of x] hd_stringify[of y] by metis
qed

lemma stringify_elems_map: "stringify_elems xs = map stringify xs"
  by (induction xs) simp_all

lemma stringify_members_map:
  "stringify_members kvs = map (\<lambda>kv. quote (fst kv) @ CHR '':'' # stringify (snd kv)) kvs"
  by (induction kvs) auto

lemma join_comma_Cons:
  "join_comma (s # rest) = s @ (if rest = [] then [] else CHR '','' # join_comma rest)"
  by (cases rest) simp_all

lemma items_unique:
  assumes cl: "delim cl" "cl \<noteq> CHR '',''"
    and a: "\<And>x. f x \<noteq> [] \<and> \<not> delim (hd (f x))"
    and u: "\<And>x y R R'. x \<in> set xs \<Longrightarrow> delimited R \<Longrightarrow> delimited R'
              \<Longrightarrow> f x @ R = f y @ R' \<Longrightarrow> x = y \<and> R = R'"
    and e: "join_comma (map f xs) @ cl # r = join_comma (map f ys) @ cl # r'"
  shows "xs = ys \<and> r = r'"
  using u e
proof (induction xs arbitrary: ys)
  case Nil
  show ?case
  proof (cases ys)
    case Nil with Nil.prems(2) show ?thesis by simp
  next
    case (Cons y t)
    with Nil.prems(2) have "cl # r = f y @ ((if t = [] then [] else CHR '','' # join_comma (map f t)) @ cl # r')"
      by (simp add: join_comma_Cons)
    then have "hd (f y @ ((if t = [] then [] else CHR '','' # join_comma (map f t)) @ cl # r')) = cl"
      by (metis list.sel(1))
    with a[of y] cl(1) show ?thesis by (simp add: hd_append)
  qed
next
  case (Cons x t)
  show ?case
  proof (cases ys)
    case Nil
    with Cons.prems(2) have "cl # r' = f x @ ((if t = [] then [] else CHR '','' # join_comma (map f t)) @ cl # r)"
      by (simp add: join_comma_Cons)
    then have "hd (f x @ ((if t = [] then [] else CHR '','' # join_comma (map f t)) @ cl # r)) = cl"
      by (metis list.sel(1))
    with a[of x] cl(1) show ?thesis by (simp add: hd_append)
  next
    case (Cons y t')
    let ?R = "(if t = [] then [] else CHR '','' # join_comma (map f t)) @ cl # r"
    let ?R' = "(if t' = [] then [] else CHR '','' # join_comma (map f t')) @ cl # r'"
    from Cons.prems(2) Cons have eq: "f x @ ?R = f y @ ?R'"
      by (simp add: join_comma_Cons)
    have dR: "delimited ?R" "delimited ?R'"
      using cl(1) by (simp_all add: delimited_def delim_def)
    have "x \<in> set (x # t)" by simp
    from Cons.prems(1)[OF this dR eq] have xy: "x = y" and RR: "?R = ?R'" by simp_all
    have "t = t' \<and> r = r'"
    proof (cases "t = []")
      case True
      show ?thesis
      proof (cases "t' = []")
        case True with \<open>t = []\<close> RR show ?thesis by simp
      next
        case False with \<open>t = []\<close> RR cl(2) show ?thesis by simp
      qed
    next
      case False
      show ?thesis
      proof (cases "t' = []")
        case True with False RR cl(2) show ?thesis by simp
      next
        case f: False
        with False RR have "join_comma (map f t) @ cl # r = join_comma (map f t') @ cl # r'"
          by simp
        moreover have "x' = y' \<and> R = R'"
          if "x' \<in> set t" "delimited R" "delimited R'" "f x' @ R = f y' @ R'" for x' y' R R'
        proof -
          from that(1) have "x' \<in> set (x # t)" by simp
          from Cons.prems(1)[OF this that(2,3,4)] show ?thesis .
        qed
        ultimately show ?thesis using Cons.IH[of t'] by blast
      qed
    qed
    with xy Cons show ?thesis by simp
  qed
qed

lemma stringify_unique:
  "delimited r \<Longrightarrow> delimited r' \<Longrightarrow> stringify x @ r = stringify y @ r' \<Longrightarrow> x = y \<and> r = r'"
proof (induction x arbitrary: y r r')
  case JNull
  from kind_eq[OF JNull.prems(3)] JNull.prems(3) show ?case by (cases y) simp_all
next
  case (JBool b)
  from kind_eq[OF JBool.prems(3)] JBool.prems(3) show ?case
    by (cases y) (auto split: if_splits)
next
  case (JNum n)
  from kind_eq[OF JNum.prems(3)] obtain m where y: "y = JNum m" by (cases y) simp_all
  with JNum.prems number_unique[of r r' n m] show ?case by simp
next
  case (JStr s)
  from kind_eq[OF JStr.prems(3)] obtain s' where y: "y = JStr s'" by (cases y) simp_all
  with JStr.prems quote_unique[of s r s' r'] show ?case by simp
next
  case (JArr xs)
  from kind_eq[OF JArr.prems(3)] obtain ys where y: "y = JArr ys" by (cases y) simp_all
  with JArr.prems(3) have e: "join_comma (map stringify xs) @ CHR '']'' # r
      = join_comma (map stringify ys) @ CHR '']'' # r'"
    by (simp add: stringify_elems_map)
  have "xs = ys \<and> r = r'"
  proof (rule items_unique[where f = stringify and cl = "CHR '']''", OF _ _ _ _ e])
    show "delim CHR '']''" by (simp add: delim_def)
    show "CHR '']'' \<noteq> CHR '',''" by simp
    show "stringify x \<noteq> [] \<and> \<not> delim (hd (stringify x))" for x
      using hd_stringify[of x] by simp
    show "x = y \<and> R = R'"
      if "x \<in> set xs" "delimited R" "delimited R'" "stringify x @ R = stringify y @ R'"
      for x y R R'
      using JArr.IH[OF that] .
  qed
  with y show ?case by simp
next
  case (JObj kvs)
  from kind_eq[OF JObj.prems(3)] obtain kvs' where y: "y = JObj kvs'" by (cases y) simp_all
  let ?f = "\<lambda>kv. quote (fst kv) @ CHR '':'' # stringify (snd kv)"
  from y JObj.prems(3) have e: "join_comma (map ?f kvs) @ CHR ''}'' # r
      = join_comma (map ?f kvs') @ CHR ''}'' # r'"
    by (simp add: stringify_members_map)
  have "kvs = kvs' \<and> r = r'"
  proof (rule items_unique[where f = ?f and cl = "CHR ''}''", OF _ _ _ _ e])
    show "delim CHR ''}''" by (simp add: delim_def)
    show "CHR ''}'' \<noteq> CHR '',''" by simp
    show "?f kv \<noteq> [] \<and> \<not> delim (hd (?f kv))" for kv
      by (simp add: quote_def delim_def)
    show "kv = kv' \<and> R = R'"
      if "kv \<in> set kvs" "delimited R" "delimited R'" "?f kv @ R = ?f kv' @ R'"
      for kv kv' R R'
    proof -
      from that(4) have "quote (fst kv) @ (CHR '':'' # stringify (snd kv) @ R)
          = quote (fst kv') @ (CHR '':'' # stringify (snd kv') @ R')" by simp
      from quote_unique[OF this] have k: "fst kv = fst kv'"
        and v: "stringify (snd kv) @ R = stringify (snd kv') @ R'" by simp_all
      have "snd kv \<in> Basic_BNFs.snds kv" by (cases kv) simp
      from JObj.IH[OF that(1) this that(2,3) v] k show ?thesis
        by (simp add: prod_eq_iff)
    qed
  qed
  with y show ?case by simp
qed

lemma stringify_inj: "stringify x = stringify y \<Longrightarrow> x = y"
  using stringify_unique[of "[]" "[]" x y] by (simp add: delimited_def)

section \<open>Mining\<close>

lemma calculateHash_hash_irrelevant: "calculateHash (b\<lparr>hash := h\<rparr>) = calculateHash b"
  by (simp add: calculateHash_def hash_input_def)

lemma digest_at_sealed: "digest_at (sealed b j) k = digest_at b k"
  by (simp add: digest_at_def sealed_def calculateHash_def hash_input_def)

lemma sealed_sealed: "sealed (sealed b j) k = sealed b k"
  by (simp add: sealed_def digest_at_def calculateHash_def hash_input_def)

lemma calculateHash_sealed: "calculateHash (sealed b k) = hash (sealed b k)"
  by (simp add: sealed_def digest_at_def calculateHash_def hash_input_def)

lemma hash_sealed: "hash (sealed b k) = digest_at b k"
  by (simp add: sealed_def)

lemma nonce_sealed: "nonce (sealed b k) = k"
  by (simp add: sealed_def)

lemma sealed_fields:
  "index (sealed b k) = index b" "timestamp (sealed b k) = timestamp b"
  "data (sealed b k) = data b" "previousHash (sealed b k) = previousHash b"
  by (simp_all add: sealed_def)

lemma mine_unfold:
  "mineBlock bc b =
     (if meets (difficulty bc) (hash b) then Some b else mineBlock bc (sealed b (nonce b + 1)))"
  by (subst mineBlock.simps) (simp add: meets_def sealed_def digest_at_def)

lemma mine_sealed_found:
  assumes "meets (difficulty bc) (digest_at b k)"
    and "\<forall>i. j \<le> i \<and> i < k \<longrightarrow> \<not> meets (difficulty bc) (digest_at b i)"
    and "j \<le> k"
  shows "mineBlock bc (sealed b j) = Some (sealed b k)"
  using assms
proof (induction "nat (k - j)" arbitrary: j)
  case 0
  then have "j = k" by simp
  with "0.prems"(1) show ?case
    by (subst mine_unfold) (simp add: hash_sealed)
next
  case (Suc n)
  then have lt: "j < k" by linarith
  with Suc.prems(2) have "\<not> meets (difficulty bc) (digest_at b j)" by simp
  then have "mineBlock bc (sealed b j) = mineBlock bc (sealed b (j + 1))"
    by (subst mine_unfold) (simp add: hash_sealed nonce_sealed sealed_sealed)
  moreover have "mineBlock bc (sealed b (j + 1)) = Some (sealed b k)"
  proof (rule Suc.hyps(1))
    show "n = nat (k - (j + 1))" using Suc.hyps(2) by linarith
    show "meets (difficulty bc) (digest_at b k)" by (rule Suc.prems(1))
    show "\<forall>i. j + 1 \<le> i \<and> i < k \<longrightarrow> \<not> meets (difficulty bc) (digest_at b i)"
      using Suc.prems(2) by simp
    show "j + 1 \<le> k" using lt by simp
  qed
  ultimately show ?case by simp
qed

lemma mine_Some_cases:
  assumes "mineBlock bc0 b0 = Some y0"
  shows "(y0 = b0 \<and> meets (difficulty bc0) (hash b0)) \<or>
     (\<not> meets (difficulty bc0) (hash b0) \<and>
      (\<exists>k. nonce b0 < k \<and> y0 = sealed b0 k \<and> meets (difficulty bc0) (digest_at b0 k) \<and>
           (\<forall>i. nonce b0 < i \<and> i < k \<longrightarrow> \<not> meets (difficulty bc0) (digest_at b0 i))))"
proof (rule mineBlock.raw_induct[where P = "\<lambda>bc b y. (y = b \<and> meets (difficulty bc) (hash b)) \<or>
     (\<not> meets (difficulty bc) (hash b) \<and>
      (\<exists>k. nonce b < k \<and> y = sealed b k \<and> meets (difficulty bc) (digest_at b k) \<and>
           (\<forall>i. nonce b < i \<and> i < k \<longrightarrow> \<not> meets (difficulty bc) (digest_at b i))))", OF _ assms])
  fix mine :: "blockchain \<Rightarrow> block \<Rightarrow> block option" and bc b y
  assume IH: "\<And>bc b y. mine bc b = Some y \<Longrightarrow>
     (y = b \<and> meets (difficulty bc) (hash b)) \<or>
     (\<not> meets (difficulty bc) (hash b) \<and>
      (\<exists>k. nonce b < k \<and> y = sealed b k \<and> meets (difficulty bc) (digest_at b k) \<and>
           (\<forall>i. nonce b < i \<and> i < k \<longrightarrow> \<not> meets (difficulty bc) (digest_at b i))))"
  assume step: "(if take (difficulty bc) (hash b) \<noteq> target (difficulty bc)
      then mine bc (b\<lparr>nonce := nonce b + 1, hash := calculateHash (b\<lparr>nonce := nonce b + 1\<rparr>)\<rparr>)
      else Some b) = Some y"
  show "(y = b \<and> meets (difficulty bc) (hash b)) \<or>
     (\<not> meets (difficulty bc) (hash b) \<and>
      (\<exists>k. nonce b < k \<and> y = sealed b k \<and> meets (difficulty bc) (digest_at b k) \<and>
           (\<forall>i. nonce b < i \<and> i < k \<longrightarrow> \<not> meets (difficulty bc) (digest_at b i))))"
  proof (cases "meets (difficulty bc) (hash b)")
    case True
    with step show ?thesis by (simp add: meets_def)
  next
    case False
    let ?b1 = "sealed b (nonce b + 1)"
    from False step have run: "mine bc ?b1 = Some y"
      by (simp add: meets_def sealed_def digest_at_def)
    from IH[OF run] show ?thesis
    proof
      assume "y = ?b1 \<and> meets (difficulty bc) (hash ?b1)"
      then have "nonce b < nonce b + 1 \<and> y = sealed b (nonce b + 1)
          \<and> meets (difficulty bc) (digest_at b (nonce b + 1))
          \<and> (\<forall>i. nonce b < i \<and> i < nonce b + 1 \<longrightarrow> \<not> meets (difficulty bc) (digest_at b i))"
        by (auto simp: hash_sealed)
      with False show ?thesis by blast
    next
      assume "\<not> meets (difficulty bc) (hash ?b1) \<and>
        (\<exists>k. nonce ?b1 < k \<and> y = sealed ?b1 k \<and> meets (difficulty bc) (digest_at ?b1 k) \<and>
           (\<forall>i. nonce ?b1 < i \<and> i < k \<longrightarrow> \<not> meets (difficulty bc) (digest_at ?b1 i)))"
      then obtain k where k: "nonce b + 1 < k" "y = sealed b k"
          "meets (difficulty bc) (digest_at b k)"
          "\<forall>i. nonce b + 1 < i \<and> i < k \<longrightarrow> \<not> meets (difficulty bc) (digest_at b i)"
          and first: "\<not> meets (difficulty bc) (digest_at b (nonce b + 1))"
        by (auto simp: hash_sealed nonce_sealed sealed_sealed digest_at_sealed)
      have "\<forall>i. nonce b < i \<and> i < k \<longrightarrow> \<not> meets (difficulty bc) (digest_at b i)"
      proof (intro allI impI)
        fix i assume "nonce b < i \<and> i < k"
        then consider "i = nonce b + 1" | "nonce b + 1 < i \<and> i < k" by linarith
        then show "\<not> meets (difficulty bc) (digest_at b i)"
          using first k(4) by cases auto
      qed
      moreover have "nonce b < k" using k(1) by simp
      ultimately have "\<exists>k. nonce b < k \<and> y = sealed b k \<and> meets (difficulty bc) (digest_at b k) \<and>
           (\<forall>i. nonce b < i \<and> i < k \<longrightarrow> \<not> meets (difficulty bc) (digest_at b i))"
        using k(2,3) by blast
      with False show ?thesis by blast
    qed
  qed
qed

lemma mine_preserves:
  assumes "mineBlock bc b = Some y"
  shows "index y = index b \<and> timestamp y = timestamp b \<and> data y = data b
     \<and> previousHash y = previousHash b"
  using mine_Some_cases[OF assms] by (auto simp: sealed_fields)

lemma not_meets_empty: "0 < d \<Longrightarrow> \<not> meets d []"
  by (cases d) (simp_all add: meets_def target_def)

lemma meets_length: "meets d h \<Longrightarrow> d \<le> length h"
proof -
  assume "meets d h"
  then have "length (take d h) = length (target d)" by (simp add: meets_def)
  then show ?thesis by (simp add: target_def)
qed

lemma length_digest_at: "length (digest_at b k) = 64"
  by (simp add: digest_at_def calculateHash_def length_SHA256)

lemma mine_fresh_iff:
  assumes "0 < difficulty bc" and "hash b = []"
  shows "mineBlock bc b = Some y \<longleftrightarrow>
     (\<exists>k. nonce b < k \<and> y = sealed b k \<and> meets (difficulty bc) (digest_at b k) \<and>
        (\<forall>i. nonce b < i \<and> i < k \<longrightarrow> \<not> meets (difficulty bc) (digest_at b i)))"
proof
  assume "mineBlock bc b = Some y"
  from mine_Some_cases[OF this] assms not_meets_empty[of "difficulty bc"]
  show "\<exists>k. nonce b < k \<and> y = sealed b k \<and> meets (difficulty bc) (digest_at b k) \<and>
        (\<forall>i. nonce b < i \<and> i < k \<longrightarrow> \<not> meets (difficulty bc) (digest_at b i))"
    by auto
next
  assume "\<exists>k. nonce b < k \<and> y = sealed b k \<and> meets (difficulty bc) (digest_at b k) \<and>
        (\<forall>i. nonce b < i \<and> i < k \<longrightarrow> \<not> meets (difficulty bc) (digest_at b i))"
  then obtain k where k: "nonce b < k" "y = sealed b k" "meets (difficulty bc) (digest_at b k)"
      "\<forall>i. nonce b < i \<and> i < k \<longrightarrow> \<not> meets (difficulty bc) (digest_at b i)"
    by blast
  from assms have "mineBlock bc b = mineBlock bc (sealed b (nonce b + 1))"
    by (subst mine_unfold) (simp add: not_meets_empty)
  also have "\<dots> = Some (sealed b k)"
  proof (rule mine_sealed_found)
    show "meets (difficulty bc) (digest_at b k)" by (rule k(3))
    show "\<forall>i. nonce b + 1 \<le> i \<and> i < k \<longrightarrow> \<not> meets (difficulty bc) (digest_at b i)"
      using k(4) by simp
    show "nonce b + 1 \<le> k" using k(1) by simp
  qed
  finally show "mineBlock bc b = Some y" using k(2) by simp
qed

lemma mine_first:
  assumes "0 < difficulty bc" and "hash b = []"
    and "meets (difficulty bc) (calculateHash (b\<lparr>nonce := nonce b + 1\<rparr>))"
  shows "mineBlock bc b
     = Some (b\<lparr>nonce := nonce b + 1, hash := calculateHash (b\<lparr>nonce := nonce b + 1\<rparr>)\<rparr>)"
proof -
  have "\<exists>k. nonce b < k \<and> sealed b (nonce b + 1) = sealed b k
      \<and> meets (difficulty bc) (digest_at b k)
      \<and> (\<forall>i. nonce b < i \<and> i < k \<longrightarrow> \<not> meets (difficulty bc) (digest_at b i))"
    using assms(3) by (intro exI[of _ "nonce b + 1"]) (auto simp: digest_at_def)
  then have "mineBlock bc b = Some (sealed b (nonce b + 1))"
    using mine_fresh_iff[OF assms(1,2)] by blast
  then show ?thesis by (simp add: sealed_def digest_at_def)
qed

lemma least_nonce_above:
  assumes "n0 < k" and "P k"
  shows "\<exists>k'. n0 < k' \<and> P k' \<and> (\<forall>i. n0 < i \<and> i < k' \<longrightarrow> \<not> P (i::int))"
proof -
  define Q where "Q m = P (n0 + 1 + int m)" for m :: nat
  have "Q (nat (k - n0 - 1))" using assms by (simp add: Q_def)
  then have ex: "\<exists>m. Q m" ..
  define m where "m = (LEAST m. Q m)"
  have Qm: "Q m" unfolding m_def using ex by (rule LeastI_ex)
  have least: "\<And>j. j < m \<Longrightarrow> \<not> Q j" unfolding m_def by (rule not_less_Least)
  have "\<forall>i. n0 < i \<and> i < n0 + 1 + int m \<longrightarrow> \<not> P i"
  proof (intro allI impI)
    fix i assume i: "n0 < i \<and> i < n0 + 1 + int m"
    then have "nat (i - n0 - 1) < m" by linarith
    from least[OF this] i show "\<not> P i" by (simp add: Q_def)
  qed
  with Qm show ?thesis unfolding Q_def by (intro exI[of _ "n0 + 1 + int m"]) simp
qed

lemma mine_None_when_long:
  assumes "length (hash b) < difficulty bc" and "64 < difficulty bc"
  shows "mineBlock bc b = None"
proof (cases "mineBlock bc b")
  case None then show ?thesis .
next
  case (Some y)
  from mine_Some_cases[OF Some] show ?thesis
  proof
    assume "y = b \<and> meets (difficulty bc) (hash b)"
    with meets_length[of "difficulty bc" "hash b"] assms(1) show ?thesis by simp
  next
    assume "\<not> meets (difficulty bc) (hash b) \<and>
      (\<exists>k. nonce b < k \<and> y = sealed b k \<and> meets (difficulty bc) (digest_at b k) \<and>
         (\<forall>i. nonce b < i \<and> i < k \<longrightarrow> \<not> meets (difficulty bc) (digest_at b i)))"
    then obtain k where "meets (difficulty bc) (digest_at b k)" by blast
    from meets_length[OF this] assms(2) show ?thesis by (simp add: length_digest_at)
  qed
qed

lemma mine_fresh_returns_iff:
  assumes "0 < difficulty bc" and "hash b = []"
  shows "mineBlock bc b \<noteq> None \<longleftrightarrow> (\<exists>k. nonce b < k \<and> meets (difficulty bc) (digest_at b k))"
proof
  assume "mineBlock bc b \<noteq> None"
  then obtain y where "mineBlock bc b = Some y" by blast
  then show "\<exists>k. nonce b < k \<and> meets (difficulty bc) (digest_at b k)"
    using mine_fresh_iff[OF assms, of y] by blast
next
  assume "\<exists>k. nonce b < k \<and> meets (difficulty bc) (digest_at b k)"
  then obtain k where "nonce b < k" "meets (difficulty bc) (digest_at b k)" by blast
  from least_nonce_above[of "nonce b" k "\<lambda>k. meets (difficulty bc) (digest_at b k)", OF this]
  obtain k' where "nonce b < k'" "meets (difficulty bc) (digest_at b k')"
    "\<forall>i. nonce b < i \<and> i < k' \<longrightarrow> \<not> meets (difficulty bc) (digest_at b i)" by blast
  then have "mineBlock bc b = Some (sealed b k')"
    using mine_fresh_iff[OF assms, of "sealed b k'"] by blast
  then show "mineBlock bc b \<noteq> None" by simp
qed

text \<open>
  Claim C5, as amended. Both callers hand \<open>mineBlock\<close> a block whose hash is the empty
  string. For a difficulty of at least 1 the loop body runs before any digest is compared:
  the first nonce tried is the block's nonce plus one, nonces are tried in increasing order,
  and the search returns exactly the block sealed with the least nonce above the starting one
  whose digest starts with \<open>difficulty\<close> zeros. The digest of the starting nonce itself is
  never computed.
\<close>

theorem mine_least_nonce_above_start:
  assumes "0 < difficulty bc" and "hash b = []"
  shows "mineBlock bc b = Some y \<longleftrightarrow>
     (\<exists>k. nonce b < k \<and> y = b\<lparr>nonce := k, hash := calculateHash (b\<lparr>nonce := k\<rparr>)\<rparr>
        \<and> meets (difficulty bc) (calculateHash (b\<lparr>nonce := k\<rparr>))
        \<and> (\<forall>i. nonce b < i \<and> i < k \<longrightarrow> \<not> meets (difficulty bc) (calculateHash (b\<lparr>nonce := i\<rparr>))))"
  using mine_fresh_iff[OF assms, of y] by (simp add: sealed_def digest_at_def)

text \<open>
  Claim C8, as amended. The search has no bound on its iterations. For a difficulty of at
  least 1 and a block handed over with an empty hash, it returns if and only if some nonce
  above the starting one yields a digest with \<open>difficulty\<close> leading zeros; whatever it returns
  has a hash with \<open>difficulty\<close> leading zeros that is the digest recomputed from the block;
  and for a difficulty above 64, the length of a digest, it never returns.
\<close>

theorem mine_returns_iff_target_reachable:
  assumes "0 < difficulty bc" and "hash b = []"
  shows "((\<exists>y. mineBlock bc b = Some y) \<longleftrightarrow>
            (\<exists>k. nonce b < k \<and> meets (difficulty bc) (calculateHash (b\<lparr>nonce := k\<rparr>))))
       \<and> (\<forall>y. mineBlock bc b = Some y \<longrightarrow>
            take (difficulty bc) (hash y) = replicate (difficulty bc) CHR ''0''
            \<and> hash y = calculateHash y)
       \<and> (64 < difficulty bc \<longrightarrow> mineBlock bc b = None)"
proof (intro conjI)
  show "(\<exists>y. mineBlock bc b = Some y) \<longleftrightarrow>
            (\<exists>k. nonce b < k \<and> meets (difficulty bc) (calculateHash (b\<lparr>nonce := k\<rparr>)))"
  proof
    assume "\<exists>y. mineBlock bc b = Some y"
    then show "\<exists>k. nonce b < k \<and> meets (difficulty bc) (calculateHash (b\<lparr>nonce := k\<rparr>))"
      using mine_fresh_iff[OF assms] by (auto simp: digest_at_def)
  next
    assume "\<exists>k. nonce b < k \<and> meets (difficulty bc) (calculateHash (b\<lparr>nonce := k\<rparr>))"
    then obtain k where "nonce b < k" "meets (difficulty bc) (digest_at b k)"
      by (auto simp: digest_at_def)
    from least_nonce_above[of "nonce b" k "\<lambda>k. meets (difficulty bc) (digest_at b k)", OF this]
    obtain k' where "nonce b < k'" "meets (difficulty bc) (digest_at b k')"
      "\<forall>i. nonce b < i \<and> i < k' \<longrightarrow> \<not> meets (difficulty bc) (digest_at b i)" by blast
    then have "mineBlock bc b = Some (sealed b k')"
      using mine_fresh_iff[OF assms, of "sealed b k'"] by blast
    then show "\<exists>y. mineBlock bc b = Some y" ..
  qed
next
  show "\<forall>y. mineBlock bc b = Some y \<longrightarrow>
            take (difficulty bc) (hash y) = replicate (difficulty bc) CHR ''0''
            \<and> hash y = calculateHash y"
    using mine_fresh_iff[OF assms]
    by (auto simp: hash_sealed calculateHash_sealed meets_def target_def)
next
  show "64 < difficulty bc \<longrightarrow> mineBlock bc b = None"
    using mine_None_when_long[of b bc] assms(2) by simp
qed

section \<open>Validation\<close>

lemma loop_iff:
  "isChainValid_loop c i \<longleftrightarrow>
     (\<forall>j. i \<le> j \<and> j < length c \<longrightarrow>
        hash (c ! j) = calculateHash (c ! j) \<and> previousHash (c ! j) = hash (c ! (j - 1)))"
proof (induction c i rule: isChainValid_loop.induct)
  case (1 c i)
  show ?case
  proof (cases "i < length c")
    case False
    then have "isChainValid_loop c i" by (subst isChainValid_loop.simps) simp
    moreover from False have "\<And>j. i \<le> j \<Longrightarrow> \<not> j < length c" by linarith
    ultimately show ?thesis by blast
  next
    case True
    show ?thesis
    proof (cases "hash (c ! i) = calculateHash (c ! i) \<and> previousHash (c ! i) = hash (c ! (i - 1))")
      case False
      with True have "\<not> isChainValid_loop c i"
        by (subst isChainValid_loop.simps) (auto simp: Let_def)
      moreover from False True have "\<not> (\<forall>j. i \<le> j \<and> j < length c \<longrightarrow>
        hash (c ! j) = calculateHash (c ! j) \<and> previousHash (c ! j) = hash (c ! (j - 1)))"
        by (intro notI) (drule spec[of _ i], simp)
      ultimately show ?thesis by simp
    next
      case ok: True
      with True have "isChainValid_loop c i = isChainValid_loop c (i + 1)"
        by (subst isChainValid_loop.simps) (simp add: Let_def)
      also have "\<dots> \<longleftrightarrow> (\<forall>j. i + 1 \<le> j \<and> j < length c \<longrightarrow>
        hash (c ! j) = calculateHash (c ! j) \<and> previousHash (c ! j) = hash (c ! (j - 1)))"
        using "1.IH"[OF True refl refl] ok by simp
      also have "\<dots> \<longleftrightarrow> (\<forall>j. i \<le> j \<and> j < length c \<longrightarrow>
        hash (c ! j) = calculateHash (c ! j) \<and> previousHash (c ! j) = hash (c ! (j - 1)))"
      proof (intro iffI allI impI)
        fix j
        assume a: "\<forall>j. i + 1 \<le> j \<and> j < length c \<longrightarrow>
          hash (c ! j) = calculateHash (c ! j) \<and> previousHash (c ! j) = hash (c ! (j - 1))"
          and j: "i \<le> j \<and> j < length c"
        show "hash (c ! j) = calculateHash (c ! j) \<and> previousHash (c ! j) = hash (c ! (j - 1))"
        proof (cases "j = i")
          case True with ok show ?thesis by simp
        next
          case False with j have "i + 1 \<le> j \<and> j < length c" by simp
          with a show ?thesis by blast
        qed
      next
        fix j
        assume a: "\<forall>j. i \<le> j \<and> j < length c \<longrightarrow>
          hash (c ! j) = calculateHash (c ! j) \<and> previousHash (c ! j) = hash (c ! (j - 1))"
          and j: "i + 1 \<le> j \<and> j < length c"
        then have "i \<le> j \<and> j < length c" by simp
        with a show "hash (c ! j) = calculateHash (c ! j) \<and> previousHash (c ! j) = hash (c ! (j - 1))"
          by blast
      qed
      finally show ?thesis .
    qed
  qed
qed

text \<open>
  Claim C2, as amended. \<open>isChainValid\<close> walks the chain from position 1 and checks two
  things of each block: that the stored hash is the recomputed digest and that
  \<open>previousHash\<close> is the hash of the block before. It returns false at the first block failing
  either and true exactly when every block from position 1 on passes both. It checks neither
  the leading zeros of a hash, nor the indices, nor anything of the block at position 0.
\<close>

theorem isChainValid_checks:
  "isChainValid bc \<longleftrightarrow>
     (\<forall>i. 1 \<le> i \<and> i < length (chain bc) \<longrightarrow>
        hash (chain bc ! i) = calculateHash (chain bc ! i)
        \<and> previousHash (chain bc ! i) = hash (chain bc ! (i - 1)))"
  unfolding isChainValid_def by (rule loop_iff)

text \<open>
  Claim C9. In a chain that \<open>isChainValid\<close> accepts, the block at position 0 may be replaced
  by any block with the same stored hash, whatever its index, timestamp, payload, previous
  hash and nonce: \<open>isChainValid\<close> still accepts the chain.
\<close>

theorem genesis_tamper_undetected:
  assumes "isChainValid bc" and "hash g' = hash (chain bc ! 0)"
  shows "isChainValid (bc\<lparr>chain := (chain bc)[0 := g']\<rparr>)"
proof -
  let ?c = "chain bc" and ?c' = "(chain bc)[0 := g']"
  have ok: "\<forall>j. 1 \<le> j \<and> j < length ?c \<longrightarrow>
      hash (?c ! j) = calculateHash (?c ! j) \<and> previousHash (?c ! j) = hash (?c ! (j - 1))"
    using assms(1) by (simp add: isChainValid_def loop_iff)
  have "\<forall>j. 1 \<le> j \<and> j < length ?c' \<longrightarrow>
      hash (?c' ! j) = calculateHash (?c' ! j) \<and> previousHash (?c' ! j) = hash (?c' ! (j - 1))"
  proof (intro allI impI)
    fix j assume j: "1 \<le> j \<and> j < length ?c'"
    then have same: "?c' ! j = ?c ! j" by simp
    have prev: "hash (?c' ! (j - 1)) = hash (?c ! (j - 1))"
    proof (cases "j - 1 = 0")
      case True
      moreover from j have "0 < length ?c" by auto
      ultimately show ?thesis using assms(2) by simp
    next
      case False
      then show ?thesis by simp
    qed
    from ok j have "hash (?c ! j) = calculateHash (?c ! j) \<and> previousHash (?c ! j) = hash (?c ! (j - 1))"
      by simp
    with same prev show "hash (?c' ! j) = calculateHash (?c' ! j) \<and> previousHash (?c' ! j) = hash (?c' ! (j - 1))"
      by simp
  qed
  then show ?thesis by (simp add: isChainValid_def loop_iff)
qed

lemma mutation_changes_input:
  assumes "field_mutation b b'"
  shows "hash_input b' \<noteq> hash_input b"
proof -
  from assms consider
      (idx) "index b' \<noteq> index b" "b' = b\<lparr>index := index b'\<rparr>"
    | (ts) "timestamp b' \<noteq> timestamp b" "b' = b\<lparr>timestamp := timestamp b'\<rparr>"
    | (dat) "data b' \<noteq> data b" "b' = b\<lparr>data := data b'\<rparr>"
    | (prev) "previousHash b' \<noteq> previousHash b" "b' = b\<lparr>previousHash := previousHash b'\<rparr>"
    | (non) "nonce b' \<noteq> nonce b" "b' = b\<lparr>nonce := nonce b'\<rparr>"
    unfolding field_mutation_def by blast
  then show ?thesis
  proof cases
    case idx
    have e': "hash_input b' = show_int (index b') @ previousHash b @ show_int (timestamp b)
       @ stringify (data b) @ show_int (nonce b)"
      by (subst idx(2)) (simp add: hash_input_def)
    have e: "hash_input b = show_int (index b) @ previousHash b @ show_int (timestamp b)
       @ stringify (data b) @ show_int (nonce b)"
      by (simp add: hash_input_def)
    show ?thesis unfolding e' e using idx(1) show_int_inj by auto
  next
    case ts
    have e': "hash_input b' = show_int (index b) @ previousHash b @ show_int (timestamp b')
       @ stringify (data b) @ show_int (nonce b)"
      by (subst ts(2)) (simp add: hash_input_def)
    have e: "hash_input b = show_int (index b) @ previousHash b @ show_int (timestamp b)
       @ stringify (data b) @ show_int (nonce b)"
      by (simp add: hash_input_def)
    show ?thesis unfolding e' e using ts(1) show_int_inj by auto
  next
    case dat
    have e': "hash_input b' = show_int (index b) @ previousHash b @ show_int (timestamp b)
       @ stringify (data b') @ show_int (nonce b)"
      by (subst dat(2)) (simp add: hash_input_def)
    have e: "hash_input b = show_int (index b) @ previousHash b @ show_int (timestamp b)
       @ stringify (data b) @ show_int (nonce b)"
      by (simp add: hash_input_def)
    show ?thesis unfolding e' e using dat(1) stringify_inj by auto
  next
    case prev
    have e': "hash_input b' = show_int (index b) @ previousHash b' @ show_int (timestamp b)
       @ stringify (data b) @ show_int (nonce b)"
      by (subst prev(2)) (simp add: hash_input_def)
    have e: "hash_input b = show_int (index b) @ previousHash b @ show_int (timestamp b)
       @ stringify (data b) @ show_int (nonce b)"
      by (simp add: hash_input_def)
    show ?thesis unfolding e' e using prev(1) by auto
  next
    case non
    have e': "hash_input b' = show_int (index b) @ previousHash b @ show_int (timestamp b)
       @ stringify (data b) @ show_int (nonce b')"
      by (subst non(2)) (simp add: hash_input_def)
    have e: "hash_input b = show_int (index b) @ previousHash b @ show_int (timestamp b)
       @ stringify (data b) @ show_int (nonce b)"
      by (simp add: hash_input_def)
    show ?thesis unfolding e' e using non(1) show_int_inj by auto
  qed
qed

text \<open>
  Claim C1, as amended. In a chain that \<open>isChainValid\<close> accepts, changing one hashed field
  (index, timestamp, payload, previous hash or nonce) of a block at position 1 or later of
  the chain being validated, while keeping its stored hash, makes \<open>isChainValid\<close> return
  false, as long as SHA-256 does not collide on the block's old and new hash input. The
  position is the one in the chain as loaded, not the block's index: the block at position 0
  is not checked, whichever block that is.
\<close>

theorem tamper_detected:
  assumes valid: "isChainValid bc"
    and i: "0 < i" "i < length (chain bc)"
    and mut: "field_mutation (chain bc ! i) b'"
    and nocoll: "collision_free (hash_input (chain bc ! i)) (hash_input b')"
  shows "\<not> isChainValid (bc\<lparr>chain := (chain bc)[i := b']\<rparr>)"
proof
  assume v': "isChainValid (bc\<lparr>chain := (chain bc)[i := b']\<rparr>)"
  let ?b = "chain bc ! i"
  from valid i have "hash ?b = calculateHash ?b"
    by (simp add: isChainValid_def loop_iff)
  moreover from v' i have "hash b' = calculateHash b'"
    by (simp add: isChainValid_def loop_iff) (metis One_nat_def Suc_leI nth_list_update_eq)
  moreover from mut have "hash b' = hash ?b" by (simp add: field_mutation_def)
  ultimately have "SHA256 (hash_input b') = SHA256 (hash_input ?b)"
    by (simp add: calculateHash_def)
  moreover from mutation_changes_input[OF mut] have "hash_input ?b \<noteq> hash_input b'" by simp
  ultimately show False using nocoll by (simp add: collision_free_def)
qed

section \<open>Chains built by the ledger\<close>

lemma genesis_mined:
  assumes d: "0 < env_difficulty env" and new: "new_Blockchain env t0 = Some bc0"
  shows "difficulty bc0 = env_difficulty env \<and>
     (\<exists>g. chain bc0 = [g] \<and> index g = 0 \<and> previousHash g = ''0''
          \<and> hash g = calculateHash g \<and> meets (env_difficulty env) (hash g))"
proof -
  let ?bc = "\<lparr>chain = [], difficulty = env_difficulty env\<rparr>"
  from new obtain g where g: "mineBlock ?bc (genesis_candidate env t0) = Some g"
      and bc0: "bc0 = ?bc\<lparr>chain := [g]\<rparr>"
    by (auto simp: new_Blockchain_def createGenesisBlock_def Let_def split: option.splits)
  have "hash (genesis_candidate env t0) = []" by (simp add: genesis_candidate_def)
  with d g obtain k where "g = sealed (genesis_candidate env t0) k"
      "meets (env_difficulty env) (digest_at (genesis_candidate env t0) k)"
    using mine_fresh_iff[of ?bc "genesis_candidate env t0" g] by auto
  then have "index g = 0 \<and> previousHash g = ''0'' \<and> hash g = calculateHash g
      \<and> meets (env_difficulty env) (hash g)"
    by (simp add: sealed_fields hash_sealed calculateHash_sealed genesis_candidate_def)
  with bc0 show ?thesis by auto
qed

lemma addBlock_sealed:
  assumes d: "0 < difficulty bc" and add: "addBlock now wr p bc st = Some (Inr (b, bc', st'))"
  shows "chain bc \<noteq> [] \<and> chain bc' = chain bc @ [b] \<and> difficulty bc' = difficulty bc
     \<and> index b = index (last (chain bc)) + 1 \<and> previousHash b = hash (last (chain bc))
     \<and> timestamp b = now \<and> data b = p
     \<and> hash b = calculateHash b \<and> meets (difficulty bc) (hash b)
     \<and> st' = saveBlockToFirebase wr b st"
proof -
  from add have ne: "chain bc \<noteq> []"
    by (auto simp: addBlock_def getLatestBlock_def split: if_splits)
  then have latest: "getLatestBlock bc = Some (last (chain bc))"
    by (simp add: getLatestBlock_def last_conv_nth)
  let ?cand = "\<lparr>index = index (last (chain bc)) + 1, timestamp = now, data = p,
                 previousHash = hash (last (chain bc)), hash = [], nonce = 0\<rparr>"
  from add latest have m: "mineBlock bc ?cand = Some b"
      and rest: "bc' = bc\<lparr>chain := chain bc @ [b]\<rparr>" "st' = saveBlockToFirebase wr b st"
    by (auto simp: addBlock_def split: option.splits)
  from d m obtain k where "b = sealed ?cand k" "meets (difficulty bc) (digest_at ?cand k)"
    using mine_fresh_iff[of bc ?cand b] by auto
  then have "index b = index (last (chain bc)) + 1 \<and> previousHash b = hash (last (chain bc))
      \<and> timestamp b = now \<and> data b = p \<and> hash b = calculateHash b
      \<and> meets (difficulty bc) (hash b)"
    by (simp add: sealed_fields hash_sealed calculateHash_sealed)
  moreover from rest have "chain bc' = chain bc @ [b]" "difficulty bc' = difficulty bc" by simp_all
  ultimately show ?thesis using ne rest(2) by blast
qed

lemma sealed_chain_snoc:
  assumes c: "sealed_chain c" and b: "index b = index (last c) + 1"
    "previousHash b = hash (last c)" "hash b = calculateHash b"
  shows "sealed_chain (c @ [b])"
proof -
  from c have ne: "c \<noteq> []" by (simp add: sealed_chain_def)
  then have lastc: "last c = c ! (length c - 1)" by (rule last_conv_nth)
  from ne have pos: "length c - 1 < length c" by (cases c) simp_all
  with c have "index (c ! (length c - 1)) = int (length c - 1)"
    unfolding sealed_chain_def by blast
  moreover from ne have "int (length c - 1) = int (length c) - 1" by (cases c) simp_all
  ultimately have idx_last: "index (last c) = int (length c) - 1"
    by (simp add: lastc)
  show ?thesis
    unfolding sealed_chain_def
  proof (intro conjI allI impI)
    show "c @ [b] \<noteq> []" by simp
  next
    fix i assume "i < length (c @ [b])"
    then consider "i < length c" | "i = length c" by fastforce
    then show "index ((c @ [b]) ! i) = int i"
    proof cases
      case 1 with c show ?thesis by (simp add: sealed_chain_def nth_append)
    next
      case 2 with b(1) idx_last show ?thesis by simp
    qed
  next
    fix i assume "i < length (c @ [b])"
    then consider "i < length c" | "i = length c" by fastforce
    then show "hash ((c @ [b]) ! i) = calculateHash ((c @ [b]) ! i)"
    proof cases
      case 1 with c show ?thesis by (simp add: sealed_chain_def nth_append)
    next
      case 2 with b(3) show ?thesis by simp
    qed
  next
    fix i assume i: "0 < i \<and> i < length (c @ [b])"
    then consider "i < length c" | "i = length c" by fastforce
    then show "previousHash ((c @ [b]) ! i) = hash ((c @ [b]) ! (i - 1))"
    proof cases
      case 1
      with i have "i - 1 < length c" by simp
      moreover from c i 1 have "previousHash (c ! i) = hash (c ! (i - 1))"
        unfolding sealed_chain_def by blast
      ultimately show ?thesis using 1 by (simp add: nth_append)
    next
      case 2
      with ne have "(c @ [b]) ! (i - 1) = last c" by (simp add: nth_append lastc)
      with 2 b(2) show ?thesis by simp
    qed
  qed
qed

lemma addBlock_nonempty:
  assumes "chain bc \<noteq> []"
  shows "addBlock now wr p bc st =
     map_option (\<lambda>b. Inr (b, bc\<lparr>chain := chain bc @ [b]\<rparr>, saveBlockToFirebase wr b st))
       (mineBlock bc \<lparr>index = index (last (chain bc)) + 1, timestamp = now, data = p,
                      previousHash = hash (last (chain bc)), hash = [], nonce = 0\<rparr>)"
  using assms by (simp add: addBlock_def getLatestBlock_def last_conv_nth split: option.splits)

lemma addBlocks_no_error:
  assumes "chain bc \<noteq> []" and "addBlocks ps (bc, st) = Some r"
  shows "\<exists>bc' st'. r = Inr (bc', st')"
  using assms
proof (induction ps arbitrary: bc st)
  case Nil
  then show ?case by auto
next
  case (Cons p ps)
  obtain now wr d where p: "p = (now, wr, d)" by (cases p)
  from Cons.prems(2) p addBlock_nonempty[OF Cons.prems(1), of now wr d st]
  obtain b where "addBlocks ps (bc\<lparr>chain := chain bc @ [b]\<rparr>, saveBlockToFirebase wr b st) = Some r"
    by (auto split: option.splits sum.splits)
  from Cons.IH[OF _ this] show ?case by simp
qed

lemma new_Blockchain_mine:
  "new_Blockchain env t0 =
     map_option (\<lambda>g. \<lparr>chain = [g], difficulty = env_difficulty env\<rparr>)
       (mineBlock \<lparr>chain = [], difficulty = env_difficulty env\<rparr> (genesis_candidate env t0))"
  by (simp add: new_Blockchain_def createGenesisBlock_def Let_def split: option.splits)

lemma addBlocks_sealed:
  assumes "0 < difficulty bc" and "sealed_chain (chain bc)"
    and "addBlocks ps (bc, st) = Some (Inr (bc', st'))"
  shows "sealed_chain (chain bc') \<and> length (chain bc') = length (chain bc) + length ps
     \<and> difficulty bc' = difficulty bc"
  using assms
proof (induction ps arbitrary: bc st)
  case Nil
  then show ?case by simp
next
  case (Cons p ps)
  obtain now wr d where p: "p = (now, wr, d)" by (cases p)
  from Cons.prems(3) p obtain b bc1 st1 where
      add: "addBlock now wr d bc st = Some (Inr (b, bc1, st1))"
      and rest: "addBlocks ps (bc1, st1) = Some (Inr (bc', st'))"
    by (auto split: option.splits sum.splits)
  from addBlock_sealed[OF Cons.prems(1) add]
  have f: "chain bc1 = chain bc @ [b]" "difficulty bc1 = difficulty bc"
      "index b = index (last (chain bc)) + 1" "previousHash b = hash (last (chain bc))"
      "hash b = calculateHash b"
    by simp_all
  have "sealed_chain (chain bc1)"
    unfolding f(1) by (rule sealed_chain_snoc[OF Cons.prems(2) f(3) f(4) f(5)])
  moreover have "0 < difficulty bc1" using f(2) Cons.prems(1) by simp
  ultimately have "sealed_chain (chain bc') \<and> length (chain bc') = length (chain bc1) + length ps
     \<and> difficulty bc' = difficulty bc1"
    using Cons.IH[OF _ _ rest] by blast
  with f show ?case by simp
qed

lemma genesis_sealed_chain:
  assumes "0 < env_difficulty env" and "new_Blockchain env t0 = Some bc0"
  shows "sealed_chain (chain bc0) \<and> length (chain bc0) = 1 \<and> 0 < difficulty bc0"
proof -
  from genesis_mined[OF assms] obtain g where
    "difficulty bc0 = env_difficulty env" "chain bc0 = [g]" "index g = 0" "hash g = calculateHash g"
    by blast
  with assms(1) show ?thesis by (simp add: sealed_chain_def)
qed

text \<open>
  With a difficulty of at least 1, every block of a chain that the constructor and any number
  of \<open>addBlock\<close> calls returned (the genesis block and every appended block) stores as its
  hash the digest recomputed from its own index, previous hash, timestamp, payload and nonce.
\<close>

lemma sealed_blocks_recompute:
  assumes "0 < env_difficulty env"
    and "new_Blockchain env t0 = Some bc0"
    and "addBlocks ps (bc0, st0) = Some (Inr (bc, st))"
  shows "\<forall>b \<in> set (chain bc). hash b = calculateHash b"
proof -
  from genesis_sealed_chain[OF assms(1,2)]
  have "sealed_chain (chain bc0)" "0 < difficulty bc0" by simp_all
  from addBlocks_sealed[OF this(2) this(1) assms(3)] have "sealed_chain (chain bc)" by simp
  then show ?thesis by (auto simp: sealed_chain_def in_set_conv_nth)
qed

text \<open>
  Claim C7, as amended. Neither the constructor nor \<open>addBlock\<close> bounds the search it runs.
  For a difficulty of at least 1, the constructor returns if and only if some nonce of at
  least 1 gives the genesis block a digest with \<open>difficulty\<close> leading zeros, an append to a
  non-empty chain returns if and only if some nonce of at least 1 does so for the new block,
  and for a difficulty above 64 the constructor never returns. Whenever the constructor and
  N appends in a row have returned, no append has thrown, the chain has N + 1 blocks with the
  indices 0, 1, ..., N, every block after the first points at the hash of its predecessor,
  and \<open>isChainValid\<close> accepts the chain.
\<close>

theorem appends_return_iff_and_shape:
  assumes "0 < env_difficulty env"
  shows "(new_Blockchain env t0 \<noteq> None \<longleftrightarrow>
            (\<exists>k>0. meets (env_difficulty env)
                     (calculateHash ((genesis_candidate env t0)\<lparr>nonce := k\<rparr>))))
       \<and> (\<forall>bc now wr p st. difficulty bc = env_difficulty env \<and> chain bc \<noteq> [] \<longrightarrow>
            (addBlock now wr p bc st \<noteq> None \<longleftrightarrow>
               (\<exists>k>0. meets (difficulty bc)
                        (calculateHash \<lparr>index = index (last (chain bc)) + 1, timestamp = now,
                           data = p, previousHash = hash (last (chain bc)), hash = [],
                           nonce = k\<rparr>))))
       \<and> (64 < env_difficulty env \<longrightarrow> new_Blockchain env t0 = None)
       \<and> (\<forall>bc0 r. new_Blockchain env t0 = Some bc0 \<and> addBlocks ps (bc0, st0) = Some r \<longrightarrow>
            (\<exists>bc st. r = Inr (bc, st)
               \<and> length (chain bc) = length ps + 1
               \<and> (\<forall>i<length (chain bc). index (chain bc ! i) = int i)
               \<and> (\<forall>i. 0 < i \<and> i < length (chain bc) \<longrightarrow>
                     previousHash (chain bc ! i) = hash (chain bc ! (i - 1)))
               \<and> isChainValid bc))"
proof (intro conjI)
  let ?g = "genesis_candidate env t0"
  have g: "hash ?g = []" "nonce ?g = 0" by (simp_all add: genesis_candidate_def)
  have "new_Blockchain env t0 \<noteq> None \<longleftrightarrow>
      mineBlock \<lparr>chain = [], difficulty = env_difficulty env\<rparr> ?g \<noteq> None"
    by (simp add: new_Blockchain_mine)
  also have "\<dots> \<longleftrightarrow> (\<exists>k. nonce ?g < k \<and> meets (env_difficulty env) (digest_at ?g k))"
    using mine_fresh_returns_iff[of "\<lparr>chain = [], difficulty = env_difficulty env\<rparr>" ?g] assms g(1)
    by simp
  finally show "new_Blockchain env t0 \<noteq> None \<longleftrightarrow>
      (\<exists>k>0. meets (env_difficulty env) (calculateHash (?g\<lparr>nonce := k\<rparr>)))"
    by (simp add: g(2) digest_at_def)
next
  show "\<forall>bc now wr p st. difficulty bc = env_difficulty env \<and> chain bc \<noteq> [] \<longrightarrow>
            (addBlock now wr p bc st \<noteq> None \<longleftrightarrow>
               (\<exists>k>0. meets (difficulty bc)
                        (calculateHash \<lparr>index = index (last (chain bc)) + 1, timestamp = now,
                           data = p, previousHash = hash (last (chain bc)), hash = [],
                           nonce = k\<rparr>)))"
  proof (intro allI impI)
    fix bc :: blockchain and now wr p and st :: store
    assume a: "difficulty bc = env_difficulty env \<and> chain bc \<noteq> []"
    let ?c = "\<lparr>index = index (last (chain bc)) + 1, timestamp = now, data = p,
                previousHash = hash (last (chain bc)), hash = [], nonce = 0\<rparr>"
    have "addBlock now wr p bc st \<noteq> None \<longleftrightarrow> mineBlock bc ?c \<noteq> None"
      using a by (simp add: addBlock_nonempty)
    also have "\<dots> \<longleftrightarrow> (\<exists>k. nonce ?c < k \<and> meets (difficulty bc) (digest_at ?c k))"
      using mine_fresh_returns_iff[of bc ?c] assms a by simp
    finally show "addBlock now wr p bc st \<noteq> None \<longleftrightarrow>
               (\<exists>k>0. meets (difficulty bc)
                        (calculateHash \<lparr>index = index (last (chain bc)) + 1, timestamp = now,
                           data = p, previousHash = hash (last (chain bc)), hash = [],
                           nonce = k\<rparr>))"
      by (simp add: digest_at_def)
  qed
next
  show "64 < env_difficulty env \<longrightarrow> new_Blockchain env t0 = None"
    using mine_None_when_long[of "genesis_candidate env t0"
        "\<lparr>chain = [], difficulty = env_difficulty env\<rparr>"]
    by (simp add: new_Blockchain_mine genesis_candidate_def)
next
  show "\<forall>bc0 r. new_Blockchain env t0 = Some bc0 \<and> addBlocks ps (bc0, st0) = Some r \<longrightarrow>
            (\<exists>bc st. r = Inr (bc, st)
               \<and> length (chain bc) = length ps + 1
               \<and> (\<forall>i<length (chain bc). index (chain bc ! i) = int i)
               \<and> (\<forall>i. 0 < i \<and> i < length (chain bc) \<longrightarrow>
                     previousHash (chain bc ! i) = hash (chain bc ! (i - 1)))
               \<and> isChainValid bc)"
  proof (intro allI impI)
    fix bc0 r
    assume a: "new_Blockchain env t0 = Some bc0 \<and> addBlocks ps (bc0, st0) = Some r"
    from a have n: "new_Blockchain env t0 = Some bc0" by simp
    from genesis_sealed_chain[OF assms n]
    have g: "sealed_chain (chain bc0)" "0 < difficulty bc0" "length (chain bc0) = 1" by simp_all
    from g(3) have "chain bc0 \<noteq> []" by auto
    from addBlocks_no_error[OF this] a obtain bc st where r: "r = Inr (bc, st)" by blast
    with a have run: "addBlocks ps (bc0, st0) = Some (Inr (bc, st))" by simp
    from addBlocks_sealed[OF g(2) g(1) run] g(3)
    have s: "sealed_chain (chain bc)" and len: "length (chain bc) = length ps + 1" by simp_all
    from s have "isChainValid bc"
      by (simp add: isChainValid_def loop_iff sealed_chain_def)
    with s len r show "\<exists>bc st. r = Inr (bc, st)
               \<and> length (chain bc) = length ps + 1
               \<and> (\<forall>i<length (chain bc). index (chain bc ! i) = int i)
               \<and> (\<forall>i. 0 < i \<and> i < length (chain bc) \<longrightarrow>
                     previousHash (chain bc ! i) = hash (chain bc ! (i - 1)))
               \<and> isChainValid bc"
      by (simp add: sealed_chain_def)
  qed
qed


section \<open>Recording votes\<close>

lemma createGenesis_shape:
  assumes "createGenesisBlock env now bc = Some bc'"
  shows "difficulty bc' = difficulty bc \<and>
     (\<exists>g. chain bc' = chain bc @ [g] \<and> index g = 0 \<and> mineBlock bc (genesis_candidate env now) = Some g)"
proof -
  from assms obtain g where g: "mineBlock bc (genesis_candidate env now) = Some g"
      and bc': "bc' = bc\<lparr>chain := chain bc @ [g]\<rparr>"
    by (auto simp: createGenesisBlock_def split: option.splits)
  from mine_preserves[OF g] have "index g = 0" by (simp add: genesis_candidate_def)
  with g bc' show ?thesis by simp
qed

lemma load_nonempty:
  assumes "loadFromFirebase env now rd st bc = Some bc'"
  shows "chain bc' \<noteq> [] \<and> difficulty bc' = difficulty bc"
proof (cases "rd \<and> getDocs_ordered st \<noteq> []")
  case True
  with assms show ?thesis by (auto simp: loadFromFirebase_def Let_def)
next
  case False
  with assms have "createGenesisBlock env now (bc\<lparr>chain := []\<rparr>) = Some bc'"
    by (auto simp: loadFromFirebase_def Let_def split: if_splits)
  from createGenesis_shape[OF this] show ?thesis by auto
qed

lemma load_failed_or_empty:
  assumes "\<not> rd \<or> st = []"
  shows "loadFromFirebase env now rd st bc = createGenesisBlock env now (bc\<lparr>chain := []\<rparr>)"
  using assms by (auto simp: loadFromFirebase_def Let_def getDocs_ordered_def)

lemma recordVote_cases:
  assumes "recordVoteOnBlockchain env w e c v st = Some (r, st')"
  shows "\<exists>bc0 bc1 b. new_Blockchain env (t_ctor w) = Some bc0
     \<and> loadFromFirebase env (t_load w) (read_ok w) st bc0 = Some bc1
     \<and> mineBlock bc1 \<lparr>index = index (last (chain bc1)) + 1, timestamp = t_block w,
                       data = voteData w e c v, previousHash = hash (last (chain bc1)),
                       hash = [], nonce = 0\<rparr> = Some b
     \<and> r = \<lparr>success = True, transactionHash = Some (hash b), error = None\<rparr>
     \<and> st' = saveBlockToFirebase (write_ok w) b st"
proof -
  from assms obtain bc0 bc1 where
      n: "new_Blockchain env (t_ctor w) = Some bc0"
      and l: "loadFromFirebase env (t_load w) (read_ok w) st bc0 = Some bc1"
    by (auto simp: recordVoteOnBlockchain_def split: option.splits)
  from load_nonempty[OF l] have ne: "chain bc1 \<noteq> []" by simp
  from assms n l show ?thesis
    by (auto simp: recordVoteOnBlockchain_def addBlock_nonempty[OF ne] split: option.splits)
qed

text \<open>
  Claim C3, as amended. Whenever \<open>recordVoteOnBlockchain\<close> returns, it reports success with
  the hash of the block it mined, whether or not the write reached the store: a failed write
  is caught inside \<open>saveBlockToFirebase\<close> and leaves the store as it was, and only a write
  that succeeded puts the block into the store.
\<close>

theorem record_vote_success_regardless_of_write:
  assumes "recordVoteOnBlockchain env w e c v st = Some (r, st')"
  shows "success r \<and> error r = None
     \<and> (\<exists>b. transactionHash r = Some (hash b) \<and> data b = voteData w e c v
            \<and> st' = (if write_ok w then setDoc_block b st else st))"
proof -
  from recordVote_cases[OF assms] obtain bc1 b where
      m: "mineBlock bc1 \<lparr>index = index (last (chain bc1)) + 1, timestamp = t_block w,
                       data = voteData w e c v, previousHash = hash (last (chain bc1)),
                       hash = [], nonce = 0\<rparr> = Some b"
      and r: "r = \<lparr>success = True, transactionHash = Some (hash b), error = None\<rparr>"
      and s: "st' = saveBlockToFirebase (write_ok w) b st"
    by blast
  from mine_preserves[OF m] have "data b = voteData w e c v" by simp
  with r s show ?thesis by (auto simp: saveBlockToFirebase_def)
qed

lemma voteData_read_ok: "voteData (w\<lparr>read_ok := x\<rparr>) e c v = voteData w e c v"
  by (simp add: voteData_def)

text \<open>
  Claim C4, as amended. A failed read is not reported: \<open>loadFromFirebase\<close> catches it and
  replaces the chain by one freshly mined genesis block, exactly as it does for a store that
  is empty. \<open>verifyBlockchain\<close> and \<open>recordVoteOnBlockchain\<close> then answer as they would on
  an empty store, whatever the store holds; \<open>verifyBlockchain\<close> reports a valid chain of one
  block.
\<close>

theorem failed_load_is_treated_as_empty_store:
  assumes "\<not> read_ok w"
  shows "verifyBlockchain env w st = verifyBlockchain env (w\<lparr>read_ok := True\<rparr>) []
     \<and> map_option fst (recordVoteOnBlockchain env w e c v st)
         = map_option fst (recordVoteOnBlockchain env (w\<lparr>read_ok := True\<rparr>) e c v [])
     \<and> (\<forall>r. verifyBlockchain env w st = Some r \<longrightarrow> valid r \<and> blockCount r = 1)"
proof (intro conjI)
  show "verifyBlockchain env w st = verifyBlockchain env (w\<lparr>read_ok := True\<rparr>) []"
    using assms by (simp add: verifyBlockchain_def load_failed_or_empty cong: option.case_cong)
next
  have "\<And>bc0. loadFromFirebase env (t_load w) (read_ok w) st bc0
      = loadFromFirebase env (t_load w) True [] bc0"
    using assms by (simp add: load_failed_or_empty)
  then show "map_option fst (recordVoteOnBlockchain env w e c v st)
         = map_option fst (recordVoteOnBlockchain env (w\<lparr>read_ok := True\<rparr>) e c v [])"
    by (auto simp: recordVoteOnBlockchain_def voteData_read_ok addBlock_def
        split: option.splits sum.splits)
next
  have "valid r \<and> blockCount r = 1" if "verifyBlockchain env w st = Some r" for r
  proof -
  from that obtain bc0 bc1 where n: "new_Blockchain env (t_ctor w) = Some bc0"
      and l: "loadFromFirebase env (t_load w) (read_ok w) st bc0 = Some bc1"
      and r: "r = \<lparr>valid = isChainValid bc1, blockCount = length (chain bc1)\<rparr>"
    by (auto simp: verifyBlockchain_def split: option.splits)
  from l assms have "createGenesisBlock env (t_load w) (bc0\<lparr>chain := []\<rparr>) = Some bc1"
    by (simp add: load_failed_or_empty)
  from createGenesis_shape[OF this] obtain g where "chain bc1 = [g]" by auto
  with r show "valid r \<and> blockCount r = 1"
    by (simp add: isChainValid_def isChainValid_loop.simps)
  qed
  then show "\<forall>r. verifyBlockchain env w st = Some r \<longrightarrow> valid r \<and> blockCount r = 1"
    by blast
qed

lemma sorted_last_max:
  assumes "sorted (map f xs)" and "x \<in> set xs"
  shows "f x \<le> f (last xs)"
proof -
  from assms(2) have ne: "xs \<noteq> []" by auto
  from assms(2) obtain i where i: "i < length xs" "xs ! i = x" by (auto simp: in_set_conv_nth)
  then have "i \<le> length xs - 1" by simp
  with assms(1) i ne have "map f xs ! i \<le> map f xs ! (length xs - 1)"
    by (intro sorted_nth_mono) simp_all
  with i ne show ?thesis by (simp add: last_conv_nth)
qed

lemma loaded_last_is_max:
  assumes "x \<in> set st"
  shows "index x \<le> index (last (getDocs_ordered st))"
  unfolding getDocs_ordered_def
  by (rule sorted_last_max) (use assms in simp_all)

lemma fresh_index_appends:
  assumes "\<forall>x\<in>set st. index x < index b"
  shows "setDoc_block b st = st @ [b]"
  using assms by (auto simp: setDoc_block_def)

lemma record_vote_appends:
  assumes rd: "read_ok w" and wr: "write_ok w"
    and run: "recordVoteOnBlockchain env w e c v st = Some (r, st')"
  shows "success r \<and> (\<exists>b. st' = st @ [b] \<and> data b = voteData w e c v
           \<and> transactionHash r = Some (hash b))"
proof -
  from recordVote_cases[OF run] obtain bc0 bc1 b where
      l: "loadFromFirebase env (t_load w) (read_ok w) st bc0 = Some bc1"
      and m: "mineBlock bc1 \<lparr>index = index (last (chain bc1)) + 1, timestamp = t_block w,
                       data = voteData w e c v, previousHash = hash (last (chain bc1)),
                       hash = [], nonce = 0\<rparr> = Some b"
      and r: "r = \<lparr>success = True, transactionHash = Some (hash b), error = None\<rparr>"
      and s: "st' = saveBlockToFirebase (write_ok w) b st"
    by blast
  from mine_preserves[OF m] have b: "index b = index (last (chain bc1)) + 1"
      "data b = voteData w e c v" by simp_all
  have "\<forall>x\<in>set st. index x < index b"
  proof
    fix x assume x: "x \<in> set st"
    then have "st \<noteq> []" by auto
    moreover have "length (getDocs_ordered st) = length st" by (simp add: getDocs_ordered_def)
    ultimately have "getDocs_ordered st \<noteq> []" by auto
    with l rd have "chain bc1 = getDocs_ordered st"
      by (auto simp: loadFromFirebase_def Let_def)
    with loaded_last_is_max[OF x] b(1) show "index x < index b" by simp
  qed
  from fresh_index_appends[OF this] s wr have "st' = st @ [b]"
    by (simp add: saveBlockToFirebase_def)
  with b(2) r show ?thesis by auto
qed

lemma vote_block_counts:
  assumes "data b = voteData w e c v"
  shows "ledger_tally e c (bs @ [b]) = ledger_tally e c bs + 1"
  using assms by (simp add: ledger_tally_def electionVotes_def is_election_vote_def voteData_def)

lemma ledger_tally_ordered: "ledger_tally e c (getDocs_ordered st) = ledger_tally e c st"
proof -
  have "\<And>bs. ledger_tally e c bs =
      length (filter (\<lambda>b. is_election_vote e b \<and> member (data b) ''candidateId'' = Some (JNum c)) bs)"
    by (simp add: ledger_tally_def electionVotes_def filter_map o_def conj_commute)
  then show ?thesis by (simp add: getDocs_ordered_def filter_sort)
qed

lemma castVote_first:
  assumes "getDoc_ok f" "setDoc_ok f" "updateDoc_ok f"
    and "elections d eid = Some el" "uid \<notin> set (voters el)"
    and "0 < c" "c \<le> int (length (candidates el))"
  shows "castVote f eid c uid vh d =
     (CastSuccess,
      d\<lparr>transactions := transactions d @
           [\<lparr>tx_election = eid, tx_candidate = c, tx_voter = uid, tx_voteHash = vh\<rparr>],
        elections := (elections d)(eid \<mapsto>
           el\<lparr>candidates := (candidates el)
                  [nat (c - 1) := (candidates el ! nat (c - 1))
                     \<lparr>voteCount := voteCount (candidates el ! nat (c - 1)) + 1\<rparr>],
              voters := voters el @ [uid]\<rparr>)\<rparr>)"
  using assms by (simp add: castVote_def Let_def)

lemma castVote_again:
  assumes "getDoc_ok f" and "elections d eid = Some el" and "uid \<in> set (voters el)"
  shows "castVote f eid c uid vh d =
     (CastError (Error ''You have already voted in this election''), d)"
  using assms by (simp add: castVote_def)

lemma handleCastVote_after_record:
  assumes "c \<noteq> 0" and "recordVoteOnBlockchain env w eid c uid st = Some (r, st')"
    and "success r"
  shows "handleCastVote env w f ts (Some c) True (Some uid) eid (st, d) =
     (case castVote f eid c uid (createVoteHash ts eid c uid) d of
        (CastError e, d') \<Rightarrow> Some (AlertError e, st', d')
      | (CastSuccess, d') \<Rightarrow> Some (VoteCastSuccessfully, st', d'))"
  using assms by (simp add: handleCastVote_def Let_def)

text \<open>
  Claim C10. \<open>recordVoteOnBlockchain\<close> never looks at who voted before: for every election,
  candidate and voter, two calls in a row whose read and write succeed both report success
  and both append a VOTE block for that voter, so the ledger's tally for the candidate grows
  by two. On the voting screen the only check of the voter list is in \<open>castVote\<close>, which
  \<open>handleCastVote\<close> calls after the ledger was written: when the voter had not voted, the
  first run ends in success, the second in "already voted" with its block already appended,
  and the election document's \<open>voteCount\<close> has grown by one.
\<close>

theorem ledger_counts_duplicate_votes:
  assumes io: "read_ok w1" "write_ok w1" "read_ok w2" "write_ok w2"
    and run1: "recordVoteOnBlockchain env w1 eid c uid st = Some (r1, st1)"
    and run2: "recordVoteOnBlockchain env w2 eid c uid st1 = Some (r2, st2)"
  shows "success r1 \<and> success r2
     \<and> (\<exists>b1 b2. st2 = st @ [b1, b2]
           \<and> data b1 = voteData w1 eid c uid \<and> data b2 = voteData w2 eid c uid)
     \<and> ledger_tally eid c (getDocs_ordered st2) = ledger_tally eid c (getDocs_ordered st) + 2
     \<and> (getDoc_ok f1 \<and> setDoc_ok f1 \<and> updateDoc_ok f1 \<and> getDoc_ok f2
          \<and> elections d eid = Some el \<and> uid \<notin> set (voters el)
          \<and> 0 < c \<and> c \<le> int (length (candidates el))
        \<longrightarrow> (\<exists>d1 el1.
              handleCastVote env w1 f1 ts1 (Some c) True (Some uid) eid (st, d)
                = Some (VoteCastSuccessfully, st1, d1)
            \<and> handleCastVote env w2 f2 ts2 (Some c) True (Some uid) eid (st1, d1)
                = Some (AlertError (Error ''You have already voted in this election''), st2, d1)
            \<and> elections d1 eid = Some el1
            \<and> voteCount (candidates el1 ! nat (c - 1))
                = voteCount (candidates el ! nat (c - 1)) + 1))"
proof -
  from record_vote_appends[OF io(1,2) run1] obtain b1 where
      s1: "success r1" "st1 = st @ [b1]" "data b1 = voteData w1 eid c uid"
    by blast
  from record_vote_appends[OF io(3,4) run2] obtain b2 where
      s2: "success r2" "st2 = st1 @ [b2]" "data b2 = voteData w2 eid c uid"
    by blast
  have st2: "st2 = st @ [b1, b2]" using s1(2) s2(2) by simp
  have "ledger_tally eid c st2 = ledger_tally eid c st + 2"
    using vote_block_counts[OF s1(3), of st] vote_block_counts[OF s2(3), of "st @ [b1]"] s1(2) s2(2)
    by simp
  then have tally: "ledger_tally eid c (getDocs_ordered st2)
      = ledger_tally eid c (getDocs_ordered st) + 2"
    by (simp add: ledger_tally_ordered)
  have screen: "\<exists>d1 el1.
        handleCastVote env w1 f1 ts1 (Some c) True (Some uid) eid (st, d)
          = Some (VoteCastSuccessfully, st1, d1)
      \<and> handleCastVote env w2 f2 ts2 (Some c) True (Some uid) eid (st1, d1)
          = Some (AlertError (Error ''You have already voted in this election''), st2, d1)
      \<and> elections d1 eid = Some el1
      \<and> voteCount (candidates el1 ! nat (c - 1)) = voteCount (candidates el ! nat (c - 1)) + 1"
    if f1: "getDoc_ok f1" "setDoc_ok f1" "updateDoc_ok f1" and f2: "getDoc_ok f2"
      and el: "elections d eid = Some el" "uid \<notin> set (voters el)"
        "0 < c" "c \<le> int (length (candidates el))"
  proof -
    from el(3) have c0: "c \<noteq> 0" by simp
    let ?el1 = "el\<lparr>candidates := (candidates el)
                  [nat (c - 1) := (candidates el ! nat (c - 1))
                     \<lparr>voteCount := voteCount (candidates el ! nat (c - 1)) + 1\<rparr>],
              voters := voters el @ [uid]\<rparr>"
    let ?d1 = "d\<lparr>transactions := transactions d @
           [\<lparr>tx_election = eid, tx_candidate = c, tx_voter = uid,
             tx_voteHash = createVoteHash ts1 eid c uid\<rparr>],
        elections := (elections d)(eid \<mapsto> ?el1)\<rparr>"
    have h1: "handleCastVote env w1 f1 ts1 (Some c) True (Some uid) eid (st, d)
        = Some (VoteCastSuccessfully, st1, ?d1)"
      by (simp add: handleCastVote_after_record[OF c0 run1 s1(1)] castVote_first[OF f1 el])
    have d1: "elections ?d1 eid = Some ?el1" by simp
    have voted: "uid \<in> set (voters ?el1)" by simp
    have h2: "handleCastVote env w2 f2 ts2 (Some c) True (Some uid) eid (st1, ?d1)
        = Some (AlertError (Error ''You have already voted in this election''), st2, ?d1)"
      by (simp only: handleCastVote_after_record[OF c0 run2 s2(1)]
            castVote_again[OF f2 d1 voted]) simp
    from el(3,4) have "nat (c - 1) < length (candidates el)" by linarith
    then have "voteCount (candidates ?el1 ! nat (c - 1))
        = voteCount (candidates el ! nat (c - 1)) + 1" by simp
    with h1 h2 d1 show ?thesis by blast
  qed
  from s1(1) s2(1) st2 s1(3) s2(3) tally screen show ?thesis by blast
qed

section \<open>The recorded run, evaluated\<close>

text \<open>
  The hash inputs of the recorded blocks and their SHA-256 digests.
\<close>

lemma input_g0:
  \<open>hash_input g0 = ''001700000000142{"message":"Blockchain Voting System Genesis Block"}1''\<close>
  by (simp add: g0_def hash_input_def show_int_def dec.simps digit_char_def quote_def quote_char_def)

lemma sha_g0:
  \<open>SHA256 ''001700000000142{"message":"Blockchain Voting System Genesis Block"}1''
     = ''0082f8f1d0620a26d424706dee87376ecfbcb84507ef1d576890ee39c2588011''\<close>
  by code_simp

lemma input_b1:
  \<open>hash_input b1 = ''10082f8f1d0620a26d424706dee87376ecfbcb84507ef1d576890ee39c25880111700000200424{"type":"VOTE","electionId":"E1","candidateId":1,"voterIdHash":"316ca0efda6296d8f2c11d1e20890d220cec4266a0c16fbbef324c004688468a","voteHash":"faaa130ddf48ab24fd1d3e9877a3657853b9e7b0ff0d4b1e0d8dcfc6f2e99d2d","timestamp":1700000200000}1''\<close>
  by (simp add: b1_def hash_input_def show_int_def dec.simps digit_char_def quote_def quote_char_def)

lemma sha_b1:
  \<open>SHA256 ''10082f8f1d0620a26d424706dee87376ecfbcb84507ef1d576890ee39c25880111700000200424{"type":"VOTE","electionId":"E1","candidateId":1,"voterIdHash":"316ca0efda6296d8f2c11d1e20890d220cec4266a0c16fbbef324c004688468a","voteHash":"faaa130ddf48ab24fd1d3e9877a3657853b9e7b0ff0d4b1e0d8dcfc6f2e99d2d","timestamp":1700000200000}1''
     = ''00a8611bbe4cfb2075d4266cf4f655d5b358b476b47902d3d57a277ac0e979b3''\<close>
  by code_simp

lemma input_b1_tampered:
  \<open>hash_input b1_tampered = ''10082f8f1d0620a26d424706dee87376ecfbcb84507ef1d576890ee39c25880111700000200424{"type":"VOTE","electionId":"E1","candidateId":2,"voterIdHash":"316ca0efda6296d8f2c11d1e20890d220cec4266a0c16fbbef324c004688468a","voteHash":"faaa130ddf48ab24fd1d3e9877a3657853b9e7b0ff0d4b1e0d8dcfc6f2e99d2d","timestamp":1700000200000}1''\<close>
  by (simp add: b1_tampered_def b1_def hash_input_def show_int_def dec.simps digit_char_def quote_def quote_char_def)

lemma sha_b1_tampered:
  \<open>SHA256 ''10082f8f1d0620a26d424706dee87376ecfbcb84507ef1d576890ee39c25880111700000200424{"type":"VOTE","electionId":"E1","candidateId":2,"voterIdHash":"316ca0efda6296d8f2c11d1e20890d220cec4266a0c16fbbef324c004688468a","voteHash":"faaa130ddf48ab24fd1d3e9877a3657853b9e7b0ff0d4b1e0d8dcfc6f2e99d2d","timestamp":1700000200000}1''
     = ''2541dbc307844c142334b279c6f104f7b3cfb7e00346efffb36141a7585dfaee''\<close>
  by code_simp

lemma input_b2:
  \<open>hash_input b2 = ''200a8611bbe4cfb2075d4266cf4f655d5b358b476b47902d3d57a277ac0e979b31700000300363{"type":"VOTE","electionId":"E1","candidateId":1,"voterIdHash":"316ca0efda6296d8f2c11d1e20890d220cec4266a0c16fbbef324c004688468a","voteHash":"d9dfdfc2f97ea27e0e9ca5c76a3ab795bc046bf4c9f7d19c1b4aad9a85673ce3","timestamp":1700000300000}1''\<close>
  by (simp add: b2_def hash_input_def show_int_def dec.simps digit_char_def quote_def quote_char_def)

lemma sha_b2:
  \<open>SHA256 ''200a8611bbe4cfb2075d4266cf4f655d5b358b476b47902d3d57a277ac0e979b31700000300363{"type":"VOTE","electionId":"E1","candidateId":1,"voterIdHash":"316ca0efda6296d8f2c11d1e20890d220cec4266a0c16fbbef324c004688468a","voteHash":"d9dfdfc2f97ea27e0e9ca5c76a3ab795bc046bf4c9f7d19c1b4aad9a85673ce3","timestamp":1700000300000}1''
     = ''00619185a02d2c2bd5432f0ba4ea2bfab6b8ab57e2cc3cb1b54555cba6efb583''\<close>
  by code_simp

lemma sha_U1:
  \<open>SHA256 ''U1''
     = ''316ca0efda6296d8f2c11d1e20890d220cec4266a0c16fbbef324c004688468a''\<close>
  by code_simp

lemma sha_vote1:
  \<open>SHA256 ''E1|1|U1|1700000200000''
     = ''faaa130ddf48ab24fd1d3e9877a3657853b9e7b0ff0d4b1e0d8dcfc6f2e99d2d''\<close>
  by code_simp

lemma sha_vote2:
  \<open>SHA256 ''E1|1|U1|1700000300000''
     = ''d9dfdfc2f97ea27e0e9ca5c76a3ab795bc046bf4c9f7d19c1b4aad9a85673ce3''\<close>
  by code_simp

lemma input_early0:
  \<open>hash_input early_candidate = ''001700000121462{"message":"Blockchain Voting System Genesis Block"}0''\<close>
  by (simp add: early_candidate_def genesis_candidate_def env0_def hash_input_def show_int_def dec.simps digit_char_def quote_def quote_char_def)

lemma input_early1:
  \<open>hash_input (early_candidate\<lparr>nonce := 1\<rparr>) = ''001700000121462{"message":"Blockchain Voting System Genesis Block"}1''\<close>
  by (simp add: early_candidate_def genesis_candidate_def env0_def hash_input_def show_int_def dec.simps digit_char_def quote_def quote_char_def)

lemma sha_early0:
  \<open>SHA256 ''001700000121462{"message":"Blockchain Voting System Genesis Block"}0''
     = ''001563be50462abefbe46fc6c7b84ba841ebec862f660c04fdcdbe36d33f78bf''\<close>
  by code_simp

lemma sha_early1:
  \<open>SHA256 ''001700000121462{"message":"Blockchain Voting System Genesis Block"}1''
     = ''00157a81d399c8ceaf500cdba66722cef8bd4a434ab358ffd701751db1e78118''\<close>
  by code_simp

lemma input_x1:
  \<open>hash_input x1 = ''9abc1700000000000{"v":1}0''\<close>
  by (simp add: x1_def hash_input_def show_int_def dec.simps digit_char_def quote_def quote_char_def)

lemma sha_x1:
  \<open>SHA256 ''9abc1700000000000{"v":1}0''
     = ''13073e01f076a1e8dcf942b0ce36d500a51b65ddfa6e30330d53b45fa6f42f0f''\<close>
  by code_simp

lemma calc_g0: "calculateHash g0 = hash g0"
  by (simp add: calculateHash_def input_g0 sha_g0) (simp add: g0_def)

lemma calc_b1: "calculateHash b1 = hash b1"
  by (simp add: calculateHash_def input_b1 sha_b1) (simp add: b1_def)

lemma calc_b2: "calculateHash b2 = hash b2"
  by (simp add: calculateHash_def input_b2 sha_b2) (simp add: b2_def)

lemma calc_x1: "calculateHash x1 = hash x1"
  by (simp add: calculateHash_def input_x1 sha_x1) (simp add: x1_def)

lemma calc_early0:
  "calculateHash early_candidate = ''001563be50462abefbe46fc6c7b84ba841ebec862f660c04fdcdbe36d33f78bf''"
  by (simp add: calculateHash_def input_early0 sha_early0)

lemma calc_early1:
  "calculateHash (early_candidate\<lparr>nonce := 1\<rparr>)
     = ''00157a81d399c8ceaf500cdba66722cef8bd4a434ab358ffd701751db1e78118''"
  by (simp add: calculateHash_def input_early1 sha_early1)

lemma mine_to:
  assumes d: "difficulty bc = 2" and c: "hash c = []" "nonce c = 0"
    and b: "c\<lparr>nonce := 1, hash := hash b\<rparr> = b" "calculateHash b = hash b"
      "take 2 (hash b) = ''00''"
  shows "mineBlock bc c = Some b"
proof -
  have "b\<lparr>hash := []\<rparr> = c\<lparr>nonce := 1, hash := hash b\<rparr>\<lparr>hash := []\<rparr>" by (simp add: b(1))
  also have "\<dots> = c\<lparr>nonce := 1\<rparr>" using c(1) by simp
  finally have "calculateHash (c\<lparr>nonce := 1\<rparr>) = hash b"
    using calculateHash_hash_irrelevant[where b = b and h = "[]"] b(2) by simp
  then have h: "calculateHash (c\<lparr>nonce := nonce c + 1\<rparr>) = hash b" using c(2) by simp
  have m: "meets (difficulty bc) (calculateHash (c\<lparr>nonce := nonce c + 1\<rparr>))"
    unfolding h using d b(3) by (simp add: meets_def target_def eval_nat_numeral)
  have "mineBlock bc c = Some (c\<lparr>nonce := nonce c + 1, hash := hash b\<rparr>)"
    using mine_first[OF _ c(1) m] d h by simp
  with c(2) b(1) show ?thesis by simp
qed

lemma mine_genesis0:
  "difficulty bc = 2 \<Longrightarrow> mineBlock bc (genesis_candidate env0 1700000000142) = Some g0"
  by (rule mine_to) (simp_all add: calc_g0, simp_all add: genesis_candidate_def env0_def g0_def)

lemma mine_b1:
  "difficulty bc = 2 \<Longrightarrow>
   mineBlock bc \<lparr>index = index g0 + 1, timestamp = 1700000200424, data = data b1,
                 previousHash = hash g0, hash = [], nonce = 0\<rparr> = Some b1"
  by (rule mine_to) (simp_all add: calc_b1, simp_all add: b1_def g0_def)

lemma mine_b2:
  "difficulty bc = 2 \<Longrightarrow>
   mineBlock bc \<lparr>index = 2, timestamp = 1700000300363, data = data b2,
                 previousHash = hash b1, hash = [], nonce = 0\<rparr> = Some b2"
  by (rule mine_to) (simp_all add: calc_b2, simp_all add: b2_def b1_def)

lemma env0_fields:
  "env_difficulty env0 = 2" "genesisMessage env0 = ''Blockchain Voting System Genesis Block''"
  by (simp_all add: env0_def)

lemma new0: "new_Blockchain env0 1700000000142 = Some \<lparr>chain = [g0], difficulty = 2\<rparr>"
  by (simp add: new_Blockchain_def createGenesisBlock_def mine_genesis0 env0_fields)

lemma load_empty0:
  "loadFromFirebase env0 1700000000142 rd [] \<lparr>chain = [g0], difficulty = 2\<rparr>
     = Some \<lparr>chain = [g0], difficulty = 2\<rparr>"
  by (simp add: loadFromFirebase_def getDocs_ordered_def createGenesisBlock_def mine_genesis0)

lemma load_failed0:
  "loadFromFirebase env0 1700000000142 False st \<lparr>chain = [g0], difficulty = 2\<rparr>
     = Some \<lparr>chain = [g0], difficulty = 2\<rparr>"
  by (simp add: loadFromFirebase_def createGenesisBlock_def mine_genesis0)

lemma voteData1: "voteData (w1\<lparr>write_ok := x\<rparr>) ''E1'' 1 ''U1'' = data b1"
  by (simp add: voteData_def createVoteHash_def w1_def b1_def sha_U1 show_int_def dec.simps
      digit_char_def sha_vote1)

lemma voteData2: "voteData w2 ''E1'' 1 ''U1'' = data b2"
  by (simp add: voteData_def createVoteHash_def w2_def b2_def sha_U1 show_int_def dec.simps
      digit_char_def sha_vote2)

lemma w1_fields:
  "t_ctor (w1\<lparr>write_ok := x\<rparr>) = 1700000000142" "t_load (w1\<lparr>write_ok := x\<rparr>) = 1700000000142"
  "t_block (w1\<lparr>write_ok := x\<rparr>) = 1700000200424" "read_ok (w1\<lparr>write_ok := x\<rparr>) = True"
  "write_ok (w1\<lparr>write_ok := x\<rparr>) = x"
  by (simp_all add: w1_def)

lemma w2_fields:
  "t_ctor w2 = 1700000000142" "t_load w2 = 1700000000142"
  "t_block w2 = 1700000300363" "read_ok w2 = True" "write_ok w2 = True"
  by (simp_all add: w2_def)

lemma run_vote1:
  "recordVoteOnBlockchain env0 (w1\<lparr>write_ok := x\<rparr>) ''E1'' 1 ''U1'' []
     = Some (\<lparr>success = True, transactionHash = Some (hash b1), error = None\<rparr>,
             if x then [b1] else [])"
  by (simp add: recordVoteOnBlockchain_def w1_fields new0 load_empty0 voteData1 addBlock_def
      getLatestBlock_def mine_b1 saveBlockToFirebase_def setDoc_block_def)

lemma index_b1_b2: "index b1 = 1" "index b2 = 2"
  by (simp_all add: b1_def b2_def)

lemma run_vote2:
  "recordVoteOnBlockchain env0 w2 ''E1'' 1 ''U1'' [b1]
     = Some (\<lparr>success = True, transactionHash = Some (hash b2), error = None\<rparr>, [b1, b2])"
  by (simp add: recordVoteOnBlockchain_def w2_fields new0 loadFromFirebase_def getDocs_ordered_def
      voteData2 addBlock_def getLatestBlock_def mine_b2 saveBlockToFirebase_def setDoc_block_def
      index_b1_b2)

lemma prev_b1: "previousHash b1 = hash g0"
  by (simp add: b1_def g0_def)

lemma valid_ledger2: "isChainValid ledger2"
  by (simp add: isChainValid_def ledger2_def isChainValid_loop.simps Let_def calc_b1 prev_b1)

lemma add_run:
  "addBlocks [(1700000200424, True, data b1)] (\<lparr>chain = [g0], difficulty = 2\<rparr>, [])
     = Some (Inr (ledger2, [b1]))"
  by (simp add: addBlock_def getLatestBlock_def mine_b1 saveBlockToFirebase_def setDoc_block_def
      ledger2_def)

lemma db0_election: "elections db0 ''E1'' = Some election0"
  by (simp add: db0_def)

lemma cast1:
  "castVote fs_ok ''E1'' 1 ''U1'' (createVoteHash 1700000200000 ''E1'' 1 ''U1'') db0
     = (CastSuccess, db1)"
proof -
  have "castVote fs_ok ''E1'' 1 ''U1'' (createVoteHash 1700000200000 ''E1'' 1 ''U1'') db0
      = (CastSuccess,
         snd (castVote fs_ok ''E1'' 1 ''U1'' (createVoteHash 1700000200000 ''E1'' 1 ''U1'') db0))"
    by (subst (1 2) castVote_first[where el = election0])
       (simp_all add: fs_ok_def db0_election election0_def)
  then show ?thesis by (simp only: db1_def)
qed

lemma run_screen1:
  "handleCastVote env0 w1 fs_ok 1700000200000 (Some 1) True (Some ''U1'') ''E1'' ([], db0)
     = Some (VoteCastSuccessfully, [b1], db1)"
proof -
  have r: "recordVoteOnBlockchain env0 w1 ''E1'' 1 ''U1'' []
      = Some (\<lparr>success = True, transactionHash = Some (hash b1), error = None\<rparr>, [b1])"
    using run_vote1[of True] by (simp add: w1_def)
  show ?thesis
    by (simp add: handleCastVote_def r cast1 Let_def)
qed

section \<open>The claims on the recorded run\<close>

text \<open>
  Claim C1 on the recorded run: the ledger of the genesis block and the first vote is valid;
  with \<open>candidateId\<close> of the vote changed from 1 to 2 and the hash kept, it is not.
\<close>

theorem tamper_detected_witness:
  "isChainValid ledger2 \<and> \<not> isChainValid (ledger2\<lparr>chain := (chain ledger2)[1 := b1_tampered]\<rparr>)"
proof -
  have i: "0 < (1::nat)" "1 < length (chain ledger2)" by (simp_all add: ledger2_def)
  have nth1: "chain ledger2 ! 1 = b1" by (simp add: ledger2_def)
  have "data b1_tampered \<noteq> data b1"
    by (simp add: b1_tampered_def b1_def)
  then have m: "field_mutation (chain ledger2 ! 1) b1_tampered"
    unfolding nth1 by (simp add: field_mutation_def) (simp add: b1_tampered_def)
  have c: "collision_free (hash_input (chain ledger2 ! 1)) (hash_input b1_tampered)"
    unfolding nth1 by (simp add: collision_free_def input_b1 input_b1_tampered sha_b1 sha_b1_tampered)
  from tamper_detected[OF valid_ledger2 i m c] valid_ledger2 show ?thesis by simp
qed

text \<open>
  Claim C1 as stated fails on the store that two recorded votes leave behind. The genesis
  block that \<open>recordVoteOnBlockchain\<close> mines for an empty store is never written, so the
  store holds the two vote blocks only and a reload puts the first vote, a block with index 1
  that points at the genesis hash, at position 0. With \<open>candidateId\<close> of that block changed
  from 1 to 2 and its hash kept, \<open>verifyBlockchain\<close> still reports a valid chain.
\<close>

theorem tamper_evidence_counterexample:
  "recordVoteOnBlockchain env0 w1 ''E1'' 1 ''U1'' []
     = Some (\<lparr>success = True, transactionHash = Some (hash b1), error = None\<rparr>, [b1])
   \<and> recordVoteOnBlockchain env0 w2 ''E1'' 1 ''U1'' [b1]
     = Some (\<lparr>success = True, transactionHash = Some (hash b2), error = None\<rparr>, [b1, b2])
   \<and> index b1 = 1
   \<and> b1_tampered = b1\<lparr>data := data b1_tampered\<rparr>
   \<and> data b1_tampered \<noteq> data b1
   \<and> hash b1_tampered = hash b1
   \<and> verifyBlockchain env0 w1 [b1, b2] = Some \<lparr>valid = True, blockCount = 2\<rparr>
   \<and> verifyBlockchain env0 w1 [b1_tampered, b2] = Some \<lparr>valid = True, blockCount = 2\<rparr>"
proof -
  have r1: "recordVoteOnBlockchain env0 w1 ''E1'' 1 ''U1'' []
     = Some (\<lparr>success = True, transactionHash = Some (hash b1), error = None\<rparr>, [b1])"
    using run_vote1[of True] by (simp add: w1_def)
  have t: "b1_tampered = b1\<lparr>data := data b1_tampered\<rparr>" "data b1_tampered \<noteq> data b1"
      "hash b1_tampered = hash b1" "index b1_tampered = 1"
    by (simp_all add: b1_tampered_def b1_def)
  have w: "t_ctor w1 = 1700000000142" "t_load w1 = 1700000000142" "read_ok w1"
    by (simp_all add: w1_def)
  have p: "previousHash b2 = hash b1" by (simp add: b2_def b1_def)
  have l: "loadFromFirebase env0 1700000000142 True [x, b2] \<lparr>chain = [g0], difficulty = 2\<rparr>
      = Some \<lparr>chain = [x, b2], difficulty = 2\<rparr>" if "index x = 1" for x
    using that by (simp add: loadFromFirebase_def getDocs_ordered_def index_b1_b2)
  have v: "isChainValid \<lparr>chain = [x, b2], difficulty = 2\<rparr>" if "hash x = hash b1" for x
    using that by (simp add: isChainValid_def isChainValid_loop.simps Let_def calc_b2 p)
  have v1: "verifyBlockchain env0 w1 [b1, b2] = Some \<lparr>valid = True, blockCount = 2\<rparr>"
    by (simp add: verifyBlockchain_def w new0 l index_b1_b2 v)
  have v2: "verifyBlockchain env0 w1 [b1_tampered, b2] = Some \<lparr>valid = True, blockCount = 2\<rparr>"
    by (simp add: verifyBlockchain_def w new0 l t(3,4) v)
  from r1 run_vote2 index_b1_b2(1) t(1,2,3) v1 v2 show ?thesis by blast
qed

text \<open>
  Claim C2 as stated fails: \<open>isChainValid\<close> accepts two stored blocks of which the second
  has a genuine digest without leading zeros and index 9 after index 5, and the first has
  neither index 0 nor the previous hash "0".
\<close>

theorem validator_completeness_counterexample:
  "isChainValid \<lparr>chain = [x0, x1], difficulty = 2\<rparr>
     \<and> take 2 (hash x1) \<noteq> ''00'' \<and> index x1 \<noteq> index x0 + 1
     \<and> previousHash x0 \<noteq> ''0'' \<and> index x0 \<noteq> 0"
proof -
  have "previousHash x1 = hash x0" by (simp add: x1_def x0_def)
  then have "isChainValid \<lparr>chain = [x0, x1], difficulty = 2\<rparr>"
    by (simp add: isChainValid_def isChainValid_loop.simps Let_def calc_x1)
  then show ?thesis by (simp add: x0_def x1_def)
qed

text \<open>
  Claim C2 as amended, on the recorded ledger.
\<close>

theorem isChainValid_checks_witness:
  "isChainValid ledger2
     \<and> hash (chain ledger2 ! 1) = calculateHash (chain ledger2 ! 1)
     \<and> previousHash (chain ledger2 ! 1) = hash (chain ledger2 ! (1 - 1))"
proof -
  have "1 \<le> (1::nat) \<and> 1 < length (chain ledger2)" by (simp add: ledger2_def)
  with valid_ledger2 isChainValid_checks[of ledger2] show ?thesis by blast
qed

text \<open>
  Claim C3 as stated fails: the write fails, the store stays empty, and the caller is told
  the vote succeeded.
\<close>

theorem durability_counterexample:
  "recordVoteOnBlockchain env0 (w1\<lparr>write_ok := False\<rparr>) ''E1'' 1 ''U1'' []
     = Some (\<lparr>success = True,
              transactionHash = Some ''00a8611bbe4cfb2075d4266cf4f655d5b358b476b47902d3d57a277ac0e979b3'',
              error = None\<rparr>, [])"
  by (simp add: run_vote1) (simp add: b1_def)

text \<open>
  Claim C3 as amended, on the first vote of the run.
\<close>

theorem record_vote_success_regardless_of_write_witness:
  "recordVoteOnBlockchain env0 (w1\<lparr>write_ok := True\<rparr>) ''E1'' 1 ''U1'' []
     = Some (\<lparr>success = True, transactionHash = Some (hash b1), error = None\<rparr>, [b1])
   \<and> success \<lparr>success = True, transactionHash = Some (hash b1), error = None\<rparr>
   \<and> error \<lparr>success = True, transactionHash = Some (hash b1), error = None\<rparr> = None"
proof -
  have run: "recordVoteOnBlockchain env0 (w1\<lparr>write_ok := True\<rparr>) ''E1'' 1 ''U1'' []
     = Some (\<lparr>success = True, transactionHash = Some (hash b1), error = None\<rparr>, [b1])"
    by (simp add: run_vote1)
  from record_vote_success_regardless_of_write[OF run] run show ?thesis by blast
qed

text \<open>
  Claim C4 as stated fails: the store holds two blocks, the read fails, and
  \<open>verifyBlockchain\<close> reports a valid chain of one block.
\<close>

theorem fail_closed_counterexample:
  "verifyBlockchain env0 (w1\<lparr>read_ok := False\<rparr>) [b1, b2] = Some \<lparr>valid = True, blockCount = 1\<rparr>"
  by (simp add: verifyBlockchain_def w1_def new0 load_failed0 isChainValid_def
      isChainValid_loop.simps)

text \<open>
  Claim C4 as amended, on the same store.
\<close>

theorem failed_load_is_treated_as_empty_store_witness:
  "\<not> read_ok (w1\<lparr>read_ok := False\<rparr>)
   \<and> verifyBlockchain env0 (w1\<lparr>read_ok := False\<rparr>) [b1, b2]
       = verifyBlockchain env0 (w1\<lparr>read_ok := False\<rparr>\<lparr>read_ok := True\<rparr>) []"
proof -
  have h: "\<not> read_ok (w1\<lparr>read_ok := False\<rparr>)" by simp
  from failed_load_is_treated_as_empty_store[OF h, of env0 "[b1, b2]"] h show ?thesis by blast
qed

text \<open>
  Claim C5 as stated fails: the digest for nonce 0 already starts with two zeros, and the
  block is sealed with nonce 1.
\<close>

theorem minimal_nonce_counterexample:
  "nonce early_candidate = 0
   \<and> take 2 (calculateHash early_candidate) = ''00''
   \<and> mineBlock \<lparr>chain = [], difficulty = 2\<rparr> early_candidate
       = Some (early_candidate
                 \<lparr>nonce := 1,
                  hash := ''00157a81d399c8ceaf500cdba66722cef8bd4a434ab358ffd701751db1e78118''\<rparr>)"
proof -
  have n: "nonce early_candidate = 0" and h: "hash early_candidate = []"
    by (simp_all add: early_candidate_def genesis_candidate_def)
  have m: "meets (difficulty \<lparr>chain = [], difficulty = 2\<rparr>)
      (calculateHash (early_candidate\<lparr>nonce := nonce early_candidate + 1\<rparr>))"
    by (simp add: n calc_early1 meets_def target_def eval_nat_numeral)
  from mine_first[OF _ h m] show ?thesis
    by (simp add: n calc_early0 calc_early1)
qed

text \<open>
  Claim C5 as amended, on the genesis block of the run.
\<close>

theorem mine_least_nonce_above_start_witness:
  "mineBlock \<lparr>chain = [], difficulty = 2\<rparr> (genesis_candidate env0 1700000000142) = Some g0"
proof -
  let ?bc = "\<lparr>chain = [], difficulty = 2\<rparr>" and ?c = "genesis_candidate env0 1700000000142"
  have d: "0 < difficulty ?bc" and h: "hash ?c = []" by (simp_all add: genesis_candidate_def)
  have c1: "?c\<lparr>nonce := 1\<rparr> = g0\<lparr>hash := []\<rparr>"
    by (simp add: genesis_candidate_def env0_def g0_def)
  have ch: "calculateHash (?c\<lparr>nonce := 1\<rparr>) = hash g0"
    unfolding c1 by (simp add: calculateHash_hash_irrelevant calc_g0)
  have "nonce ?c < 1 \<and> g0 = ?c\<lparr>nonce := 1, hash := calculateHash (?c\<lparr>nonce := 1\<rparr>)\<rparr>
      \<and> meets (difficulty ?bc) (calculateHash (?c\<lparr>nonce := 1\<rparr>))
      \<and> (\<forall>i. nonce ?c < i \<and> i < 1 \<longrightarrow> \<not> meets (difficulty ?bc) (calculateHash (?c\<lparr>nonce := i\<rparr>)))"
    unfolding ch
    by (auto simp: genesis_candidate_def env0_def g0_def meets_def target_def eval_nat_numeral)
  then show ?thesis
    using mine_least_nonce_above_start[OF d h, of g0] by blast
qed

text \<open>
  Claim C6 fails when the configured difficulty is 0. The loop of \<open>mineBlock\<close> is then not
  entered, so no digest is ever computed: the constructor returns a chain whose genesis block
  has the empty string as its hash, and \<open>addBlock\<close> appends and stores a block whose hash and
  previous hash are both the empty string. Neither hash is the digest recomputed from the
  block, which has 64 characters.
\<close>

theorem difficulty_zero_seals_without_digest:
  "new_Blockchain (env0\<lparr>env_difficulty := 0\<rparr>) 1700000000142
     = Some \<lparr>chain = [genesis_candidate env0 1700000000142], difficulty = 0\<rparr>
   \<and> hash (genesis_candidate env0 1700000000142) = []
   \<and> hash (genesis_candidate env0 1700000000142)
       \<noteq> calculateHash (genesis_candidate env0 1700000000142)
   \<and> addBlock 1700000200424 True (data b1)
       \<lparr>chain = [genesis_candidate env0 1700000000142], difficulty = 0\<rparr> []
     = Some (Inr (\<lparr>index = 1, timestamp = 1700000200424, data = data b1, previousHash = [],
                    hash = [], nonce = 0\<rparr>,
                  \<lparr>chain = [genesis_candidate env0 1700000000142,
                            \<lparr>index = 1, timestamp = 1700000200424, data = data b1,
                             previousHash = [], hash = [], nonce = 0\<rparr>],
                   difficulty = 0\<rparr>,
                  [\<lparr>index = 1, timestamp = 1700000200424, data = data b1, previousHash = [],
                    hash = [], nonce = 0\<rparr>]))
   \<and> hash \<lparr>index = 1, timestamp = 1700000200424, data = data b1, previousHash = [],
            hash = [], nonce = 0\<rparr>
       \<noteq> calculateHash \<lparr>index = 1, timestamp = 1700000200424, data = data b1,
            previousHash = [], hash = [], nonce = 0\<rparr>"
proof -
  let ?g = "genesis_candidate env0 1700000000142"
  let ?b = "\<lparr>index = 1, timestamp = 1700000200424, data = data b1, previousHash = [],
             hash = [], nonce = 0\<rparr>"
  have z: "mineBlock bc c = Some c" if "difficulty bc = 0" for bc c
    using that by (subst mine_unfold) (simp add: meets_def target_def)
  have g: "hash ?g = []" "index ?g = 0" by (simp_all add: genesis_candidate_def)
  have e: "genesis_candidate (env0\<lparr>env_difficulty := 0\<rparr>) 1700000000142 = ?g"
    by (simp add: genesis_candidate_def)
  have n: "new_Blockchain (env0\<lparr>env_difficulty := 0\<rparr>) 1700000000142
     = Some \<lparr>chain = [?g], difficulty = 0\<rparr>"
    by (simp add: new_Blockchain_def createGenesisBlock_def e z)
  have len: "length (calculateHash c) = 64" for c
    by (simp add: calculateHash_def length_SHA256)
  have ng: "hash ?g \<noteq> calculateHash ?g" using len[of ?g] g(1) by auto
  have nb: "hash ?b \<noteq> calculateHash ?b" using len[of ?b] by auto
  have a: "addBlock 1700000200424 True (data b1) \<lparr>chain = [?g], difficulty = 0\<rparr> []
     = Some (Inr (?b, \<lparr>chain = [?g, ?b], difficulty = 0\<rparr>, [?b]))"
    by (simp add: addBlock_def getLatestBlock_def z g saveBlockToFirebase_def setDoc_block_def)
  from n g(1) ng a nb show ?thesis by blast
qed

text \<open>
  Claim C7 as stated fails in two ways. With difficulty 65 the constructor never returns, so
  no chain is produced at all. With difficulty 0 the constructor and one append return a chain
  of two blocks that \<open>isChainValid\<close> rejects, because the appended block carries no digest.
\<close>

theorem append_validity_counterexample:
  "new_Blockchain (env0\<lparr>env_difficulty := 65\<rparr>) 1700000000142 = None
   \<and> new_Blockchain (env0\<lparr>env_difficulty := 0\<rparr>) 1700000000142
       = Some \<lparr>chain = [genesis_candidate env0 1700000000142], difficulty = 0\<rparr>
   \<and> addBlocks [(1700000200424, True, data b1)]
       (\<lparr>chain = [genesis_candidate env0 1700000000142], difficulty = 0\<rparr>, [])
     = Some (Inr (\<lparr>chain = [genesis_candidate env0 1700000000142,
                            \<lparr>index = 1, timestamp = 1700000200424, data = data b1,
                             previousHash = [], hash = [], nonce = 0\<rparr>],
                   difficulty = 0\<rparr>,
                  [\<lparr>index = 1, timestamp = 1700000200424, data = data b1, previousHash = [],
                    hash = [], nonce = 0\<rparr>]))
   \<and> \<not> isChainValid \<lparr>chain = [genesis_candidate env0 1700000000142,
                            \<lparr>index = 1, timestamp = 1700000200424, data = data b1,
                             previousHash = [], hash = [], nonce = 0\<rparr>],
                   difficulty = 0\<rparr>"
proof -
  let ?g = "genesis_candidate env0 1700000000142"
  let ?b = "\<lparr>index = 1, timestamp = 1700000200424, data = data b1, previousHash = [],
             hash = [], nonce = 0\<rparr>"
  have z: "mineBlock bc c = Some c" if "difficulty bc = 0" for bc c
    using that by (subst mine_unfold) (simp add: meets_def target_def)
  have g: "hash ?g = []" "index ?g = 0" by (simp_all add: genesis_candidate_def)
  have long: "new_Blockchain (env0\<lparr>env_difficulty := 65\<rparr>) 1700000000142 = None"
    using mine_None_when_long[of "genesis_candidate (env0\<lparr>env_difficulty := 65\<rparr>) 1700000000142"
        "\<lparr>chain = [], difficulty = 65\<rparr>"]
    by (simp add: new_Blockchain_def createGenesisBlock_def genesis_candidate_def)
  have e: "genesis_candidate (env0\<lparr>env_difficulty := 0\<rparr>) 1700000000142 = ?g"
    by (simp add: genesis_candidate_def)
  have n: "new_Blockchain (env0\<lparr>env_difficulty := 0\<rparr>) 1700000000142
     = Some \<lparr>chain = [?g], difficulty = 0\<rparr>"
    by (simp add: new_Blockchain_def createGenesisBlock_def e z)
  have a: "addBlocks [(1700000200424, True, data b1)] (\<lparr>chain = [?g], difficulty = 0\<rparr>, [])
     = Some (Inr (\<lparr>chain = [?g, ?b], difficulty = 0\<rparr>, [?b]))"
    by (simp add: addBlock_def getLatestBlock_def z g saveBlockToFirebase_def setDoc_block_def)
  have "length (calculateHash ?b) = 64" by (simp add: calculateHash_def length_SHA256)
  then have "hash ?b \<noteq> calculateHash ?b" by auto
  then have v: "\<not> isChainValid \<lparr>chain = [?g, ?b], difficulty = 0\<rparr>"
    by (simp add: isChainValid_def isChainValid_loop.simps Let_def)
  from long n a v show ?thesis by blast
qed

text \<open>
  Claim C7 as amended, on the recorded ledger, N = 1: the constructor and the append return,
  and the chain they give has the stated shape and is accepted.
\<close>

theorem appends_return_iff_and_shape_witness:
  "new_Blockchain env0 1700000000142 \<noteq> None
   \<and> addBlock 1700000200424 True (data b1) \<lparr>chain = [g0], difficulty = 2\<rparr> [] \<noteq> None
   \<and> length (chain ledger2) = length [(1700000200424 :: int, True, data b1)] + 1
   \<and> index (chain ledger2 ! 0) = 0 \<and> index (chain ledger2 ! 1) = 1
   \<and> previousHash (chain ledger2 ! 1) = hash (chain ledger2 ! 0)
   \<and> isChainValid ledger2"
proof -
  let ?c = "genesis_candidate env0 1700000000142"
  let ?bc = "\<lparr>chain = [g0], difficulty = 2\<rparr>"
  have d: "0 < env_difficulty env0" by (simp add: env0_fields)
  note t = appends_return_iff_and_shape[OF d, of 1700000000142
      "[(1700000200424, True, data b1)]" "[]"]
  have c1: "?c\<lparr>nonce := 1\<rparr> = g0\<lparr>hash := []\<rparr>"
    by (simp add: genesis_candidate_def env0_def g0_def)
  have ch: "calculateHash (?c\<lparr>nonce := 1\<rparr>) = hash g0"
    unfolding c1 by (simp add: calculateHash_hash_irrelevant calc_g0)
  have "meets (env_difficulty env0) (calculateHash (?c\<lparr>nonce := 1\<rparr>))"
    unfolding ch by (simp add: env0_fields g0_def meets_def target_def eval_nat_numeral)
  then have "\<exists>k>0. meets (env_difficulty env0) (calculateHash (?c\<lparr>nonce := k\<rparr>))"
    by (intro exI[of _ 1]) simp
  with t have n: "new_Blockchain env0 1700000000142 \<noteq> None" by blast
  have c2: "\<lparr>index = index (last (chain ?bc)) + 1, timestamp = 1700000200424, data = data b1,
      previousHash = hash (last (chain ?bc)), hash = [], nonce = 1\<rparr> = b1\<lparr>hash := []\<rparr>"
    by (simp add: b1_def g0_def)
  have "meets (difficulty ?bc) (calculateHash \<lparr>index = index (last (chain ?bc)) + 1,
      timestamp = 1700000200424, data = data b1, previousHash = hash (last (chain ?bc)),
      hash = [], nonce = 1\<rparr>)"
    unfolding c2 by (simp add: calculateHash_hash_irrelevant calc_b1)
      (simp add: b1_def meets_def target_def eval_nat_numeral)
  then have ex: "\<exists>k>0. meets (difficulty ?bc) (calculateHash \<lparr>index = index (last (chain ?bc)) + 1,
      timestamp = 1700000200424, data = data b1, previousHash = hash (last (chain ?bc)),
      hash = [], nonce = k\<rparr>)"
    by (intro exI[of _ 1]) simp
  have "difficulty ?bc = env_difficulty env0 \<and> chain ?bc \<noteq> []" by (simp add: env0_fields)
  with t ex have a: "addBlock 1700000200424 True (data b1) ?bc [] \<noteq> None" by blast
  from t new0 add_run obtain bc st where
    r: "Inr (ledger2, [b1]) = (Inr (bc, st) :: js_error + blockchain \<times> store)"
      "length (chain bc) = length [(1700000200424 :: int, True, data b1)] + 1"
      "\<forall>i<length (chain bc). index (chain bc ! i) = int i"
      "\<forall>i. 0 < i \<and> i < length (chain bc) \<longrightarrow>
          previousHash (chain bc ! i) = hash (chain bc ! (i - 1))"
      "isChainValid bc"
    by blast
  from r(1) have bc: "bc = ledger2" by simp
  have l: "length (chain ledger2) = 2" by (simp add: ledger2_def)
  from r(3)[unfolded bc] l have "index (chain ledger2 ! 0) = 0" "index (chain ledger2 ! 1) = 1"
    by auto
  moreover from r(4)[unfolded bc] l
  have "previousHash (chain ledger2 ! 1) = hash (chain ledger2 ! 0)" by auto
  ultimately show ?thesis using n a r(2,5) bc by simp
qed


text \<open>
  Claim C8 as stated fails at both ends: with difficulty 65 the search for the genesis block
  never returns, and with difficulty 0 it returns the block as it was handed over, whose
  hash is the empty string and not the digest of the block.
\<close>

theorem mining_termination_counterexample:
  "mineBlock \<lparr>chain = [], difficulty = 65\<rparr> (genesis_candidate env0 1700000000142) = None
   \<and> mineBlock \<lparr>chain = [], difficulty = 0\<rparr> (genesis_candidate env0 1700000000142)
       = Some (genesis_candidate env0 1700000000142)
   \<and> hash (genesis_candidate env0 1700000000142) = []
   \<and> calculateHash (genesis_candidate env0 1700000000142)
       \<noteq> hash (genesis_candidate env0 1700000000142)"
proof -
  let ?c = "genesis_candidate env0 1700000000142"
  have h: "hash ?c = []" by (simp add: genesis_candidate_def)
  have long: "mineBlock \<lparr>chain = [], difficulty = 65\<rparr> ?c = None"
    by (rule mine_None_when_long) (simp_all add: h)
  have zero: "mineBlock \<lparr>chain = [], difficulty = 0\<rparr> ?c = Some ?c"
    by (subst mine_unfold) (simp add: meets_def target_def)
  have "length (calculateHash ?c) = 64" by (simp add: calculateHash_def length_SHA256)
  then have "calculateHash ?c \<noteq> hash ?c" unfolding h by auto
  with long zero h show ?thesis by blast
qed

text \<open>
  Claim C8 as amended, on the genesis block of the run.
\<close>

theorem mine_returns_iff_target_reachable_witness:
  "mineBlock \<lparr>chain = [], difficulty = 2\<rparr> (genesis_candidate env0 1700000000142) = Some g0
   \<and> take 2 (hash g0) = replicate 2 CHR ''0''
   \<and> hash g0 = calculateHash g0"
proof -
  let ?bc = "\<lparr>chain = [], difficulty = 2\<rparr>" and ?c = "genesis_candidate env0 1700000000142"
  have d: "0 < difficulty ?bc" and h: "hash ?c = []" by (simp_all add: genesis_candidate_def)
  have run: "mineBlock ?bc ?c = Some g0" by (simp add: mine_genesis0)
  from mine_returns_iff_target_reachable[OF d h] run show ?thesis by auto
qed

text \<open>
  Claim C9 on the recorded ledger: the genesis block with another timestamp and another
  message, hash kept.
\<close>

theorem genesis_tamper_undetected_witness:
  "isChainValid ledger2
   \<and> isChainValid (ledger2\<lparr>chain := (chain ledger2)
        [0 := g0\<lparr>timestamp := 0, data := JObj [(''message'', JStr ''rewritten'')]\<rparr>]\<rparr>)"
proof -
  have h: "hash (g0\<lparr>timestamp := 0, data := JObj [(''message'', JStr ''rewritten'')]\<rparr>)
      = hash (chain ledger2 ! 0)" by (simp add: ledger2_def)
  from genesis_tamper_undetected[OF valid_ledger2 h] valid_ledger2 show ?thesis by simp
qed

text \<open>
  Claim C10 on the recorded run: the second run of the voting screen for the same voter
  ends in "already voted", the ledger counts two votes and the election document one.
\<close>

theorem ledger_counts_duplicate_votes_witness:
  "handleCastVote env0 w2 fs_ok 1700000300000 (Some 1) True (Some ''U1'') ''E1'' ([b1], db1)
     = Some (AlertError (Error ''You have already voted in this election''), [b1, b2], db1)
   \<and> ledger_tally ''E1'' 1 (getDocs_ordered [b1, b2])
       = ledger_tally ''E1'' 1 (getDocs_ordered []) + 2
   \<and> map_option (\<lambda>e. voteCount (candidates e ! 0)) (elections db1 ''E1'') = Some 1"
proof -
  have io: "read_ok w1" "write_ok w1" "read_ok w2" "write_ok w2" by (simp_all add: w1_def w2_def)
  have r1: "recordVoteOnBlockchain env0 w1 ''E1'' 1 ''U1'' []
      = Some (\<lparr>success = True, transactionHash = Some (hash b1), error = None\<rparr>, [b1])"
    using run_vote1[of True] by (simp add: w1_def)
  have pre: "getDoc_ok fs_ok \<and> setDoc_ok fs_ok \<and> updateDoc_ok fs_ok \<and> getDoc_ok fs_ok
      \<and> elections db0 ''E1'' = Some election0 \<and> ''U1'' \<notin> set (voters election0)
      \<and> 0 < (1::int) \<and> 1 \<le> int (length (candidates election0))"
    by (simp add: fs_ok_def db0_election election0_def)
  from ledger_counts_duplicate_votes[OF io r1 run_vote2,
      of fs_ok fs_ok db0 election0 1700000200000 1700000300000] pre
  obtain d1 el1 where
      tally: "ledger_tally ''E1'' 1 (getDocs_ordered [b1, b2])
        = ledger_tally ''E1'' 1 (getDocs_ordered []) + 2"
      and h1: "handleCastVote env0 w1 fs_ok 1700000200000 (Some 1) True (Some ''U1'') ''E1'' ([], db0)
        = Some (VoteCastSuccessfully, [b1], d1)"
      and h2: "handleCastVote env0 w2 fs_ok 1700000300000 (Some 1) True (Some ''U1'') ''E1'' ([b1], d1)
        = Some (AlertError (Error ''You have already voted in this election''), [b1, b2], d1)"
      and e1: "elections d1 ''E1'' = Some el1"
        "voteCount (candidates el1 ! nat (1 - 1)) = voteCount (candidates election0 ! nat (1 - 1)) + 1"
    by blast
  from h1 run_screen1 have d1: "d1 = db1" by simp
  from e1 have "map_option (\<lambda>e. voteCount (candidates e ! 0)) (elections d1 ''E1'') = Some 1"
    by (simp add: election0_def)
  with tally h2 d1 show ?thesis by simp
qed

end
